theory Spec2Isabelle
  imports Main "HOL-Library.AList"
begin

section \<open>The curation state machine of spanish_flashcard_builder\<close>

text \<open>
  A shallow embedding of \<^verbatim>\<open>pipeline/curate/state.py\<close>: the class \<^verbatim>\<open>State\<close> that walks
  a list of headwords, asks a dictionary lookup for each of them and keeps a cursor
  (headword index, entry index) together with a per-word count of entries. Mutation is
  explicit state passing, \<^verbatim>\<open>sys.exit\<close> and uncaught exceptions are the left summand of
  a result, and everything the class does to the outside (log records, calls of
  \<^verbatim>\<open>look_up\<close>, writes of the history file) is appended to a trace.
\<close>

subsection \<open>Values\<close>

text \<open>
  What \<^verbatim>\<open>json.load\<close> returns and \<^verbatim>\<open>json.dump\<close> takes. A Python dict keeps insertion
  order, so an object is an association list (with distinct keys).
\<close>

datatype json =
    JNull
  | JBool bool
  | JInt int
  | JFloat int int
  | JStr string
  | JArr "json list"
  | JObj "(string \<times> json) list"

text \<open>
  \<^verbatim>\<open>DictionaryEntry\<close> wraps one raw dictionary record; \<^verbatim>\<open>DictionaryTerm\<close> is a headword with
  its entries. The module \<^verbatim>\<open>models\<close> that declares them is not part of the sources; the
  two fields are the ones \<^verbatim>\<open>state.py\<close> reads (\<^verbatim>\<open>term.headword\<close>, \<^verbatim>\<open>term.entries\<close>), and
  a term object is taken to be truthy, as an instance of a plain class is.
\<close>

datatype dictionary_entry = DictionaryEntry json

record dictionary_term =
  headword :: string
  entries :: "dictionary_entry list"

text \<open>
  A call of \<^verbatim>\<open>look_up(word)\<close> raises, or returns \<^verbatim>\<open>None\<close> or a term. The lookup is a
  parameter of every operation.
\<close>

datatype lookup_result = Raises | Returns "dictionary_term option"

type_synonym lookup = "string \<Rightarrow> lookup_result"

datatype level = ERROR | WARNING | INFO

datatype message =
    NoHeadwordsWithEntries
  | GlobalIndexOutOfRange
  | FailedToGetTerm string
  | NoMoreValidTerms
  | NoEntriesForTerm string
  | EntryIndexOutOfRange int string
  | NoEntryCount string
  | ReachedEnd
  | PreviousWordNoEntries string
  | AlreadyAtFirstEntry
  | LookupFailed string
  | WordIndexOutOfRange int
  | ErrorLoadingHistory
  | ErrorSavingHistory

datatype event =
    Log level message
  | LookUp string
  | WriteHistory json

text \<open>
  What \<^verbatim>\<open>open(paths.curator_history)\<close> followed by \<^verbatim>\<open>json.load\<close> meets when the file
  exists: the file cannot be read (\<^verbatim>\<open>IOError\<close>), its bytes are not UTF-8
  (\<^verbatim>\<open>UnicodeDecodeError\<close>), its text is not JSON (\<^verbatim>\<open>JSONDecodeError\<close>), or it decodes to a
  value.
\<close>

datatype history_file = Unreadable | NotUtf8 | NotJson | Json json

datatype error = SystemExit | TypeError | UnicodeDecodeError | IllTyped

record state_data =
  headword_index :: int
  entry_index :: int
  headword_entry_count :: "(string \<times> int) list"

record State =
  headwords :: "string list"
  data :: state_data
  lookup_cache :: "string \<rightharpoonup> dictionary_term"
  curator_history :: "history_file option"
  history_writable :: bool
  trace :: "event list"

type_synonym 'a result = "(error \<times> State) + 'a"

subsection \<open>The persisted record\<close>

definition default_data :: state_data where
  "default_data = \<lparr>headword_index = 0, entry_index = 0, headword_entry_count = []\<rparr>"

definition to_json :: "state_data \<Rightarrow> json" where
  "to_json d =
     JObj [(''headword_index'', JInt (headword_index d)),
           (''entry_index'', JInt (entry_index d)),
           (''headword_entry_count'',
              JObj (map (\<lambda>(w, c). (w, JInt c)) (headword_entry_count d)))]"

text \<open>
  \<^verbatim>\<open>cls(**json_data)\<close>: a value that is not an object, or an object with a key that is
  not a field, raises \<^verbatim>\<open>TypeError\<close>; a missing key takes the field's default. The
  dataclass stores the values unchecked. This model keeps integers in the two indices
  and a dict of integers in the counts; for any other value it answers \<open>IllTyped\<close>,
  where the program goes on with a state that the typed record cannot hold.
\<close>

fun as_int :: "json \<Rightarrow> int option" where
  "as_int (JInt i) = Some i"
| "as_int _ = None"

fun as_counts :: "(string \<times> json) list \<Rightarrow> (string \<times> int) list option" where
  "as_counts [] = Some []"
| "as_counts ((w, v) # kvs) =
     (case as_int v of
        None \<Rightarrow> None
      | Some c \<Rightarrow> (case as_counts kvs of None \<Rightarrow> None | Some cs \<Rightarrow> Some ((w, c) # cs)))"

fun as_dict :: "json \<Rightarrow> (string \<times> int) list option" where
  "as_dict (JObj kvs) = as_counts kvs"
| "as_dict _ = None"

definition field_names :: "string list" where
  "field_names = [''headword_index'', ''entry_index'', ''headword_entry_count'']"

definition from_json :: "json \<Rightarrow> error + state_data" where
  "from_json j =
     (case j of
        JObj kvs \<Rightarrow>
          if list_all (\<lambda>k. k \<in> set field_names) (map fst kvs) then
            (case (case map_of kvs ''headword_index'' of None \<Rightarrow> Some 0 | Some v \<Rightarrow> as_int v) of
               None \<Rightarrow> Inl IllTyped
             | Some h \<Rightarrow>
                 (case (case map_of kvs ''entry_index'' of None \<Rightarrow> Some 0 | Some v \<Rightarrow> as_int v) of
                    None \<Rightarrow> Inl IllTyped
                  | Some e \<Rightarrow>
                      (case (case map_of kvs ''headword_entry_count'' of
                               None \<Rightarrow> Some [] | Some v \<Rightarrow> as_dict v) of
                         None \<Rightarrow> Inl IllTyped
                       | Some c \<Rightarrow>
                           Inr \<lparr>headword_index = h, entry_index = e,
                                headword_entry_count = c\<rparr>)))
          else Inl TypeError
      | _ \<Rightarrow> Inl TypeError)"

definition log :: "level \<Rightarrow> message \<Rightarrow> State \<Rightarrow> State" where
  "log l m s = s\<lparr>trace := trace s @ [Log l m]\<rparr>"

text \<open>
  \<^verbatim>\<open>_load_history\<close>: a missing file returns at once; \<^verbatim>\<open>IOError\<close> and \<^verbatim>\<open>JSONDecodeError\<close>
  are caught and logged; any other exception leaves the method.
\<close>

definition load_history :: "State \<Rightarrow> State result" where
  "load_history s =
     (case curator_history s of
        None \<Rightarrow> Inr s
      | Some Unreadable \<Rightarrow> Inr (log ERROR ErrorLoadingHistory s)
      | Some NotUtf8 \<Rightarrow> Inl (UnicodeDecodeError, s)
      | Some NotJson \<Rightarrow> Inr (log ERROR ErrorLoadingHistory s)
      | Some (Json j) \<Rightarrow>
          (case from_json j of
             Inl e \<Rightarrow> Inl (e, s)
           | Inr d \<Rightarrow> Inr (s\<lparr>data := d\<rparr>)))"

text \<open>
  \<^verbatim>\<open>_save_history\<close>: the record is written, or opening the file for writing raises
  \<^verbatim>\<open>IOError\<close>, which is caught and logged.
\<close>

definition save_history :: "State \<Rightarrow> State" where
  "save_history s =
     (if history_writable s then
        s\<lparr>curator_history := Some (Json (to_json (data s))),
          trace := trace s @ [WriteHistory (to_json (data s))]\<rparr>
      else log ERROR ErrorSavingHistory s)"

subsection \<open>Lookups and the cursor\<close>

text \<open>\<^verbatim>\<open>xs[i]\<close> of Python: a negative index counts from the end, \<open>None\<close> is \<^verbatim>\<open>IndexError\<close>.\<close>

definition list_item :: "'a list \<Rightarrow> int \<Rightarrow> 'a option" where
  "list_item xs i =
     (let n = int (length xs); j = (if i < 0 then n + i else i)
      in if 0 \<le> j \<and> j < n then Some (xs ! nat j) else None)"

definition get_term_for_headword ::
  "lookup \<Rightarrow> string \<Rightarrow> State \<Rightarrow> dictionary_term option \<times> State" where
  "get_term_for_headword look_up word s =
     (case lookup_cache s word of
        Some t \<Rightarrow> (Some t, s)
      | None \<Rightarrow>
          (case look_up word of
             Raises \<Rightarrow>
               (None, log ERROR (LookupFailed word) (s\<lparr>trace := trace s @ [LookUp word]\<rparr>))
           | Returns None \<Rightarrow> (None, s\<lparr>trace := trace s @ [LookUp word]\<rparr>)
           | Returns (Some t) \<Rightarrow>
               (Some t, s\<lparr>lookup_cache := (lookup_cache s)(word \<mapsto> t),
                          trace := trace s @ [LookUp word]\<rparr>)))"

definition has_entries_for_current_word :: "lookup \<Rightarrow> State \<Rightarrow> bool \<times> State" where
  "has_entries_for_current_word look_up s =
     (case list_item (headwords s) (headword_index (data s)) of
        None \<Rightarrow> (False, s)
      | Some word \<Rightarrow>
          (case get_term_for_headword look_up word s of
             (None, s') \<Rightarrow> (False, s')
           | (Some t, s') \<Rightarrow> (0 < length (entries t), s')))"

definition get_count :: "State \<Rightarrow> string \<Rightarrow> int option" where
  "get_count s word = map_of (headword_entry_count (data s)) word"

definition set_count :: "string \<Rightarrow> int \<Rightarrow> State \<Rightarrow> State" where
  "set_count word c s =
     s\<lparr>data := (data s)\<lparr>headword_entry_count :=
          AList.update word c (headword_entry_count (data s))\<rparr>\<rparr>"

definition set_headword_index :: "lookup \<Rightarrow> int \<Rightarrow> State \<Rightarrow> string option \<times> State" where
  "set_headword_index look_up index s =
     (if \<not> (0 \<le> index \<and> index < int (length (headwords s))) then
        (None, log ERROR (WordIndexOutOfRange index) s)
      else
        let s1 = s\<lparr>data := (data s)\<lparr>headword_index := index, entry_index := 0\<rparr>\<rparr>;
            word = headwords s ! nat index
        in if get_count s1 word = None then
             (case get_term_for_headword look_up word s1 of
                (term, s2) \<Rightarrow>
                  let count = (case term of Some t \<Rightarrow> int (length (entries t)) | None \<Rightarrow> 0)
                  in (Some word, set_count word count s2))
           else (Some word, s1))"

lemma get_term_for_headword_frame:
  assumes "get_term_for_headword look_up word s = (r, s')"
  shows "headwords s' = headwords s \<and> data s' = data s
    \<and> curator_history s' = curator_history s \<and> history_writable s' = history_writable s"
  using assms
  by (auto simp: get_term_for_headword_def log_def
      split: option.splits lookup_result.splits)

lemma set_headword_index_Some:
  assumes "set_headword_index look_up index s = (Some word, s')"
  shows "headwords s' = headwords s \<and> headword_index (data s') = index
    \<and> entry_index (data s') = 0
    \<and> 0 \<le> index \<and> index < int (length (headwords s)) \<and> word = headwords s ! nat index"
proof -
  from assms have inr: "0 \<le> index \<and> index < int (length (headwords s))"
    by (auto simp: set_headword_index_def log_def split: if_splits)
  let ?s1 = "s\<lparr>data := (data s)\<lparr>headword_index := index, entry_index := 0\<rparr>\<rparr>"
  show ?thesis
  proof (cases "get_count ?s1 (headwords s ! nat index) = None")
    case False
    with assms inr show ?thesis
      by (auto simp: set_headword_index_def Let_def)
  next
    case True
    obtain r s2 where g: "get_term_for_headword look_up (headwords s ! nat index) ?s1 = (r, s2)"
      by (cases "get_term_for_headword look_up (headwords s ! nat index) ?s1") auto
    from get_term_for_headword_frame [OF g]
    have "headwords s2 = headwords s \<and> data s2 = data ?s1" by simp
    with assms inr True g show ?thesis
      by (auto simp: set_headword_index_def Let_def set_count_def)
  qed
qed

text \<open>
  \<^verbatim>\<open>_advance_headword(step)\<close>. The class calls it with the steps 1 and -1 only. With
  step 0 the loop of the source does not return when the word it sits on has count 0:
  that is the value \<open>None\<close>.
\<close>

function advance_headword :: "lookup \<Rightarrow> int \<Rightarrow> State \<Rightarrow> (bool \<times> State) option" where
  "advance_headword look_up step s =
     (let new_index = headword_index (data s) + step
      in if \<not> (0 \<le> new_index \<and> new_index < int (length (headwords s))) then Some (False, s)
         else
           (case set_headword_index look_up new_index s of
              (None, s') \<Rightarrow> Some (False, s')
            | (Some word, s') \<Rightarrow>
                if 0 < (case get_count s' word of None \<Rightarrow> 0 | Some c \<Rightarrow> c) then Some (True, s')
                else if step = 0 then None
                else advance_headword look_up step s'))"
  by pat_completeness auto
termination
proof (relation "measure (\<lambda>(look_up, step, s).
    if 0 < step then nat (int (length (headwords s)) - headword_index (data s))
    else nat (headword_index (data s) + 1))")
  show "wf (measure (\<lambda>(look_up, step, s).
    if 0 < step then nat (int (length (headwords s)) - headword_index (data s))
    else nat (headword_index (data s) + 1)))"
    by simp
next
  fix look_up :: lookup and step :: int and s :: State and new_index x word s'
  assume n: "new_index = headword_index (data s) + step"
    and "\<not> \<not> (0 \<le> new_index \<and> new_index < int (length (headwords s)))"
    and "(word, s') = set_headword_index look_up new_index s"
    and "word = Some x"
    and "step \<noteq> 0"
  then have e: "set_headword_index look_up new_index s = (Some x, s')"
    by simp
  from set_headword_index_Some [OF e] n \<open>step \<noteq> 0\<close>
  show "((look_up, step, s'), (look_up, step, s)) \<in> measure (\<lambda>(look_up, step, s).
    if 0 < step then nat (int (length (headwords s)) - headword_index (data s))
    else nat (headword_index (data s) + 1))"
    by auto
qed

declare advance_headword.simps [simp del]

lemma set_headword_index_None:
  assumes "set_headword_index look_up index s = (None, s')"
  shows "s' = log ERROR (WordIndexOutOfRange index) s \<and> \<not> (0 \<le> index \<and> index < int (length (headwords s)))"
  using assms
  by (auto simp: set_headword_index_def Let_def split: if_splits prod.splits)

lemma advance_headword_total:
  "step \<noteq> 0 \<Longrightarrow> \<exists>r. advance_headword look_up step s = Some r"
proof (induction look_up step s rule: advance_headword.induct)
  case (1 look_up step s)
  show ?case
  proof (cases "set_headword_index look_up (headword_index (data s) + step) s")
    case (Pair w s')
    show ?thesis
    proof (cases w)
      case None
      with Pair show ?thesis by (subst advance_headword.simps) (auto simp add: Let_def)
    next
      case (Some word)
      with Pair 1 show ?thesis
        by (subst advance_headword.simps) (auto simp add: Let_def)
    qed
  qed
qed

lemma advance_headword_cursor:
  "advance_headword look_up step s = Some (b, s') \<Longrightarrow>
   headwords s' = headwords s \<and>
   (b \<longrightarrow> 0 \<le> headword_index (data s') \<and> headword_index (data s') < int (length (headwords s))
      \<and> entry_index (data s') = 0
      \<and> (0 < step \<longrightarrow> headword_index (data s) < headword_index (data s'))
      \<and> (step < 0 \<longrightarrow> headword_index (data s') < headword_index (data s)))"
proof (induction look_up step s rule: advance_headword.induct)
  case (1 look_up step s)
  show ?case
  proof (cases "set_headword_index look_up (headword_index (data s) + step) s")
    case (Pair w s1)
    show ?thesis
    proof (cases w)
      case None
      with Pair 1(2) set_headword_index_None[of look_up _ s s1] show ?thesis
        by (subst (asm) advance_headword.simps) (auto simp add: Let_def log_def split: if_splits)
    next
      case (Some word)
      note e = Pair[unfolded Some]
      from 1(2) Pair Some set_headword_index_Some[OF e] 1(1)[OF refl _ e[symmetric] refl]
      show ?thesis
        by (subst (asm) advance_headword.simps) (auto simp add: Let_def split: if_splits)
    qed
  qed
qed

text \<open>
  \<^verbatim>\<open>_go_to_next_headword\<close> and \<^verbatim>\<open>_go_to_previous_headword\<close>: the two calls of
  \<^verbatim>\<open>_advance_headword\<close>, which return by \<open>advance_headword_total\<close>.
\<close>

definition go_to_next_headword :: "lookup \<Rightarrow> State \<Rightarrow> bool \<times> State" where
  "go_to_next_headword look_up s = the (advance_headword look_up 1 s)"

definition go_to_previous_headword :: "lookup \<Rightarrow> State \<Rightarrow> bool \<times> State" where
  "go_to_previous_headword look_up s = the (advance_headword look_up (- 1) s)"

lemma go_to_next_headword_eq:
  "go_to_next_headword look_up s = (b, s') \<longleftrightarrow> advance_headword look_up 1 s = Some (b, s')"
  using advance_headword_total [of 1 look_up s]
  by (auto simp: go_to_next_headword_def)

lemma go_to_previous_headword_eq:
  "go_to_previous_headword look_up s = (b, s') \<longleftrightarrow>
   advance_headword look_up (- 1) s = Some (b, s')"
  using advance_headword_total [of "- 1" look_up s]
  by (auto simp: go_to_previous_headword_def)

lemma go_to_next_headword_True:
  assumes "go_to_next_headword look_up s = (True, s')"
  shows "headwords s' = headwords s \<and> headword_index (data s) < headword_index (data s')
    \<and> 0 \<le> headword_index (data s') \<and> headword_index (data s') < int (length (headwords s))
    \<and> entry_index (data s') = 0"
  using advance_headword_cursor [of look_up 1 s True s'] assms
  by (simp add: go_to_next_headword_eq)

text \<open>
  \<^verbatim>\<open>current_term\<close>: the term of the headword under the cursor; a headword without a
  term is skipped forward, and \<^verbatim>\<open>_exit_with_error\<close> ends the process.
\<close>

function current_term :: "lookup \<Rightarrow> State \<Rightarrow> (dictionary_term \<times> State) result" where
  "current_term look_up s =
     (case list_item (headwords s) (headword_index (data s)) of
        None \<Rightarrow> Inl (SystemExit, log ERROR GlobalIndexOutOfRange s)
      | Some word \<Rightarrow>
          (case get_term_for_headword look_up word s of
             (Some t, s1) \<Rightarrow> Inr (t, s1)
           | (None, s1) \<Rightarrow>
               (case go_to_next_headword look_up (log WARNING (FailedToGetTerm word) s1) of
                  (True, s2) \<Rightarrow> current_term look_up s2
                | (False, s2) \<Rightarrow> Inl (SystemExit, log ERROR NoMoreValidTerms s2))))"
  by pat_completeness auto
termination
proof (relation "measure (\<lambda>(look_up, s).
    nat (int (length (headwords s)) - headword_index (data s)))")
  show "wf (measure (\<lambda>(look_up, s).
    nat (int (length (headwords s)) - headword_index (data s))))"
    by simp
next
  fix look_up :: lookup and s :: State and word r s1 b s2 x
  assume "(r, s1) = get_term_for_headword look_up word s"
    and "(b, s2) = go_to_next_headword look_up (log WARNING (FailedToGetTerm word) s1)"
    and "b = True"
  then have g: "get_term_for_headword look_up word s = (r, s1)"
    and n: "go_to_next_headword look_up (log WARNING (FailedToGetTerm word) s1) = (True, s2)"
    by simp_all
  from get_term_for_headword_frame [OF g] go_to_next_headword_True [OF n]
  show "((look_up, s2), (look_up, s)) \<in> measure (\<lambda>(look_up, s).
    nat (int (length (headwords s)) - headword_index (data s)))"
    by (auto simp: log_def)
qed

declare current_term.simps [simp del]

text \<open>\<^verbatim>\<open>current_entry\<close>: the entry of the current term under \<^verbatim>\<open>entry_index\<close>.\<close>

definition current_entry :: "lookup \<Rightarrow> State \<Rightarrow> (dictionary_entry \<times> State) result" where
  "current_entry look_up s =
     (case current_term look_up s of
        Inl e \<Rightarrow> Inl e
      | Inr (t, s1) \<Rightarrow>
          if entries t = [] then Inl (SystemExit, log ERROR (NoEntriesForTerm (headword t)) s1)
          else
            (case list_item (entries t) (entry_index (data s1)) of
               None \<Rightarrow>
                 Inl (SystemExit,
                   log ERROR (EntryIndexOutOfRange (entry_index (data s1)) (headword t)) s1)
             | Some e \<Rightarrow> Inr (e, s1)))"

text \<open>\<^verbatim>\<open>commit_entry\<close>.\<close>

definition commit_entry :: "lookup \<Rightarrow> State \<Rightarrow> State result" where
  "commit_entry look_up s =
     (case current_term look_up
             (s\<lparr>data := (data s)\<lparr>entry_index := entry_index (data s) + 1\<rparr>\<rparr>) of
        Inl e \<Rightarrow> Inl e
      | Inr (t, s1) \<Rightarrow>
          let current_word = headword t;
              (entry_count, s2) =
                (case get_count s1 current_word of
                   None \<Rightarrow> (0, set_count current_word 0 (log ERROR (NoEntryCount current_word) s1))
                 | Some c \<Rightarrow> (c, s1));
              s3 =
                (if entry_count \<le> entry_index (data s2) then
                   (case go_to_next_headword look_up s2 of
                      (True, s') \<Rightarrow> s'
                    | (False, s') \<Rightarrow> log INFO ReachedEnd s')
                 else s2)
          in Inr (save_history s3))"

text \<open>\<^verbatim>\<open>undo\<close>. The \<^verbatim>\<open>and\<close> of the second branch does not call
  \<^verbatim>\<open>_go_to_previous_headword\<close> when \<^verbatim>\<open>headword_index\<close> is not positive.\<close>

definition undo :: "lookup \<Rightarrow> State \<Rightarrow> State result" where
  "undo look_up s =
     (if 0 < entry_index (data s) then
        Inr (save_history (s\<lparr>data := (data s)\<lparr>entry_index := entry_index (data s) - 1\<rparr>\<rparr>))
      else
        (case (if 0 < headword_index (data s) then go_to_previous_headword look_up s
               else (False, s)) of
           (True, s1) \<Rightarrow>
             (case current_term look_up s1 of
                Inl e \<Rightarrow> Inl e
              | Inr (t, s2) \<Rightarrow>
                  let prev_word = headword t;
                      count = (case get_count s2 prev_word of None \<Rightarrow> 0 | Some c \<Rightarrow> c)
                  in Inr (save_history
                       (if 0 < count then s2\<lparr>data := (data s2)\<lparr>entry_index := count - 1\<rparr>\<rparr>
                        else log WARNING (PreviousWordNoEntries prev_word) s2)))
         | (False, s1) \<Rightarrow> Inr (log INFO AlreadyAtFirstEntry s1)))"

text \<open>
  \<^verbatim>\<open>State.__init__\<close>, given the list that \<^verbatim>\<open>_load_headword_list\<close> returned and the
  history file it finds: the loop that moves to the first headword with entries.
\<close>

function ensure_entries :: "lookup \<Rightarrow> State \<Rightarrow> State result" where
  "ensure_entries look_up s =
     (case has_entries_for_current_word look_up s of
        (True, s1) \<Rightarrow> Inr s1
      | (False, s1) \<Rightarrow>
          (case go_to_next_headword look_up s1 of
             (True, s2) \<Rightarrow> ensure_entries look_up s2
           | (False, s2) \<Rightarrow> Inl (SystemExit, log ERROR NoHeadwordsWithEntries s2)))"
  by pat_completeness auto
termination
proof (relation "measure (\<lambda>(look_up, s).
    nat (int (length (headwords s)) - headword_index (data s)))")
  show "wf (measure (\<lambda>(look_up, s).
    nat (int (length (headwords s)) - headword_index (data s))))"
    by simp
next
  fix look_up :: lookup and s :: State and r s1 b s2
  assume "(r, s1) = has_entries_for_current_word look_up s"
    and "(b, s2) = go_to_next_headword look_up s1"
    and "b = True"
  then have h: "has_entries_for_current_word look_up s = (r, s1)"
    and n: "go_to_next_headword look_up s1 = (True, s2)"
    by simp_all
  from h have "headwords s1 = headwords s \<and> data s1 = data s"
    by (auto simp: has_entries_for_current_word_def
        split: option.splits prod.splits dest: get_term_for_headword_frame)
  with go_to_next_headword_True [OF n]
  show "((look_up, s2), (look_up, s)) \<in> measure (\<lambda>(look_up, s).
    nat (int (length (headwords s)) - headword_index (data s)))"
    by auto
qed

declare ensure_entries.simps [simp del]

definition initial_State :: "string list \<Rightarrow> history_file option \<Rightarrow> bool \<Rightarrow> State" where
  "initial_State words file writable =
     \<lparr>headwords = words, data = default_data, lookup_cache = Map.empty,
      curator_history = file, history_writable = writable, trace = []\<rparr>"

definition State_init ::
  "lookup \<Rightarrow> string list \<Rightarrow> history_file option \<Rightarrow> bool \<Rightarrow> State result" where
  "State_init look_up words file writable =
     (case load_history (initial_State words file writable) of
        Inl e \<Rightarrow> Inl e
      | Inr s \<Rightarrow> ensure_entries look_up s)"

subsection \<open>Observations and a test vocabulary\<close>

definition cursor :: "State \<Rightarrow> int \<times> int" where
  "cursor s = (headword_index (data s), entry_index (data s))"

text \<open>The lexicographic order on cursors.\<close>

fun cursor_less :: "int \<times> int \<Rightarrow> int \<times> int \<Rightarrow> bool" where
  "cursor_less (h, e) (h', e') \<longleftrightarrow> h < h' \<or> (h = h' \<and> e < e')"

text \<open>The three words of the specification's example and a lookup for them.\<close>

definition ser_words :: "string list" where
  "ser_words = [''ser'', ''xyzxyz'', ''estar'']"

definition ser_term :: dictionary_term where
  "ser_term = \<lparr>headword = ''ser'', entries = [DictionaryEntry JNull]\<rparr>"

definition estar_term :: dictionary_term where
  "estar_term = \<lparr>headword = ''estar'', entries = [DictionaryEntry JNull]\<rparr>"

definition ser_oracle :: lookup where
  "ser_oracle w =
     (if w = ''ser'' then Returns (Some ser_term)
      else if w = ''estar'' then Returns (Some estar_term)
      else Returns None)"

text \<open>The state of a fresh start on these words, and the state after one commit.\<close>

definition ser_started :: State where
  "ser_started =
     \<lparr>headwords = [''ser'', ''xyzxyz'', ''estar''], data = default_data,
      lookup_cache = [''ser'' \<mapsto> ser_term], curator_history = None,
      history_writable = True, trace = [LookUp ''ser'']\<rparr>"

definition ser_committed :: State where
  "ser_committed =
     save_history
       \<lparr>headwords = [''ser'', ''xyzxyz'', ''estar''],
        data = \<lparr>headword_index = 2, entry_index = 0,
          headword_entry_count = [(''ser'', 0), (''xyzxyz'', 0), (''estar'', 1)]\<rparr>,
        lookup_cache = [''ser'' \<mapsto> ser_term, ''estar'' \<mapsto> estar_term],
        curator_history = None, history_writable = True,
        trace = [LookUp ''ser'', Log ERROR (NoEntryCount ''ser''), LookUp ''xyzxyz'',
          LookUp ''estar'']\<rparr>"

text \<open>The state after an \<^verbatim>\<open>undo\<close> that follows that commit.\<close>

definition ser_undone :: State where
  "ser_undone =
     (ser_committed\<lparr>data := (data ser_committed)\<lparr>headword_index := 0, entry_index := 0\<rparr>\<rparr>)
       \<lparr>trace := trace ser_committed @ [Log INFO AlreadyAtFirstEntry]\<rparr>"

subsection \<open>Sequences of operations\<close>

datatype operation = Commit | Undo

fun perform :: "lookup \<Rightarrow> operation \<Rightarrow> State \<Rightarrow> State result" where
  "perform look_up Commit s = commit_entry look_up s"
| "perform look_up Undo s = undo look_up s"

text \<open>
  A run of the engine after its start: the operations in order, each with the lookup
  that answers during it; the run ends with the first operation that does not return.
\<close>

fun run :: "(lookup \<times> operation) list \<Rightarrow> State \<Rightarrow> State result" where
  "run [] s = Inr s"
| "run ((look_up, op) # ops) s =
     (case perform look_up op s of Inl e \<Rightarrow> Inl e | Inr s' \<Rightarrow> run ops s')"

definition keeps_counts :: "State \<Rightarrow> State \<Rightarrow> bool" where
  "keeps_counts s s' \<longleftrightarrow> (\<forall>w c. get_count s w = Some c \<longrightarrow> get_count s' w = Some c)"

lemmas engine_defs =
  State_init_def initial_State_def load_history_def default_data_def
  has_entries_for_current_word_def list_item_def get_term_for_headword_def cursor_def
  commit_entry_def undo_def go_to_next_headword_def go_to_previous_headword_def
  set_headword_index_def get_count_def set_count_def log_def save_history_def Let_def
  advance_headword.simps current_term.simps ensure_entries.simps

section \<open>Persistence\<close>

lemma as_counts_to_json: "as_counts (map (\<lambda>(w, c). (w, JInt c)) cs) = Some cs"
  by (induction cs) auto

lemma from_json_to_json: "from_json (to_json d) = Inr d"
  by (simp add: from_json_def to_json_def field_names_def as_counts_to_json)

text \<open>
  C3. The persisted record round-trips: decoding the saved representation of a record
  gives the record back, so loading what \<^verbatim>\<open>_save_history\<close> wrote restores the data that
  was saved, and saving again writes the same representation.
\<close>

theorem save_load_round_trip:
  "from_json (to_json d) = Inr d \<and>
   to_json (case from_json (to_json d) of Inr d' \<Rightarrow> d' | Inl e \<Rightarrow> default_data) = to_json d \<and>
   load_history (save_history (s\<lparr>history_writable := True\<rparr>)) =
     Inr (save_history (s\<lparr>history_writable := True\<rparr>)) \<and>
   data (save_history (s\<lparr>history_writable := True\<rparr>)) = data s \<and>
   curator_history (save_history (save_history (s\<lparr>history_writable := True\<rparr>))) =
     curator_history (save_history (s\<lparr>history_writable := True\<rparr>))"
  by (simp add: from_json_to_json load_history_def save_history_def)

text \<open>
  C2, as the specification states it, fails: a history file that holds JSON which is not
  a saved state (here the empty array) makes \<^verbatim>\<open>from_json\<close> raise \<^verbatim>\<open>TypeError\<close>, which
  \<^verbatim>\<open>_load_history\<close> does not catch, so initialization ends with that exception; and a
  missing file is passed over without any log record.
\<close>

theorem load_failure_counterexample:
  "State_init ser_oracle ser_words (Some (Json (JArr []))) True =
     Inl (TypeError, initial_State ser_words (Some (Json (JArr []))) True) \<and>
   load_history (initial_State ser_words None True) = Inr (initial_State ser_words None True) \<and>
   trace (initial_State ser_words None True) = []"
  by (simp add: State_init_def load_history_def initial_State_def from_json_def)

text \<open>
  C2, amended. When the history file is missing, initialization goes on from the default
  record and logs nothing; when the file cannot be read or does not hold JSON, it logs
  one error and goes on from the default record. In these three cases the load does not
  end the process.
\<close>

theorem load_failure_recoverable:
  "State_init look_up words None w =
     ensure_entries look_up (initial_State words None w) \<and>
   State_init look_up words (Some Unreadable) w =
     ensure_entries look_up (log ERROR ErrorLoadingHistory (initial_State words (Some Unreadable) w)) \<and>
   State_init look_up words (Some NotJson) w =
     ensure_entries look_up (log ERROR ErrorLoadingHistory (initial_State words (Some NotJson) w)) \<and>
   data (initial_State words file w) = default_data \<and>
   data (log ERROR ErrorLoadingHistory (initial_State words file w)) = default_data"
  by (simp add: State_init_def load_history_def initial_State_def log_def)

section \<open>Undo at the very first entry\<close>

text \<open>
  C9. With the cursor on the first entry of the first headword, \<^verbatim>\<open>undo\<close> only logs: the
  state it returns is the one it was given with one information record appended to the
  trace, so no field of the record changes and nothing is written.
\<close>

theorem undo_at_first_entry:
  assumes "headword_index (data s) = 0" and "entry_index (data s) = 0"
  shows "undo look_up s = Inr (s\<lparr>trace := trace s @ [Log INFO AlreadyAtFirstEntry]\<rparr>)"
  using assms by (simp add: undo_def log_def)

theorem undo_at_first_entry_witness:
  "headword_index (data (initial_State ser_words None True)) = 0 \<and>
   entry_index (data (initial_State ser_words None True)) = 0 \<and>
   undo ser_oracle (initial_State ser_words None True) =
     Inr ((initial_State ser_words None True)
            \<lparr>trace := trace (initial_State ser_words None True) @ [Log INFO AlreadyAtFirstEntry]\<rparr>)"
proof -
  have h: "headword_index (data (initial_State ser_words None True)) = 0"
    and e: "entry_index (data (initial_State ser_words None True)) = 0"
    by (simp_all add: initial_State_def default_data_def)
  from undo_at_first_entry [OF h e, of ser_oracle] h e show ?thesis
    by simp
qed

section \<open>The example of the specification\<close>

lemma ser_init:
  assumes "look_up ''ser'' = Returns (Some t1)" and "length (entries t1) = 1"
  shows "State_init look_up [''ser'', ''xyzxyz'', ''estar''] None w =
    Inr \<lparr>headwords = [''ser'', ''xyzxyz'', ''estar''], data = default_data,
         lookup_cache = [''ser'' \<mapsto> t1], curator_history = None, history_writable = w,
         trace = [LookUp ''ser'']\<rparr>"
  using assms by (simp add: engine_defs)

lemma ser_commit:
  assumes "look_up ''estar'' = Returns (Some t2)" and "length (entries t2) = 1"
    and "look_up ''xyzxyz'' = Returns None" and "headword t1 = ''ser''"
  shows "commit_entry look_up
     \<lparr>headwords = [''ser'', ''xyzxyz'', ''estar''], data = default_data,
      lookup_cache = [''ser'' \<mapsto> t1], curator_history = None, history_writable = w,
      trace = [LookUp ''ser'']\<rparr> =
    Inr (save_history
     \<lparr>headwords = [''ser'', ''xyzxyz'', ''estar''],
      data = \<lparr>headword_index = 2, entry_index = 0,
        headword_entry_count = [(''ser'', 0), (''xyzxyz'', 0), (''estar'', 1)]\<rparr>,
      lookup_cache = [''ser'' \<mapsto> t1, ''estar'' \<mapsto> t2], curator_history = None,
      history_writable = w,
      trace = [LookUp ''ser'', Log ERROR (NoEntryCount ''ser''), LookUp ''xyzxyz'',
        LookUp ''estar'']\<rparr>)"
  using assms by (simp add: engine_defs)

lemma estar_commit:
  assumes "headwords s = [''ser'', ''xyzxyz'', ''estar'']"
    and "data s = \<lparr>headword_index = 2, entry_index = 0,
        headword_entry_count = [(''ser'', 0), (''xyzxyz'', 0), (''estar'', 1)]\<rparr>"
    and "lookup_cache s ''estar'' = Some t2" and "headword t2 = ''estar''"
  shows "\<exists>s2. commit_entry look_up s = Inr s2 \<and> cursor s2 = (2, 1) \<and>
    Log INFO ReachedEnd \<in> set (trace s2)"
  using assms by (simp add: engine_defs)

text \<open>
  C6. For the list ser, xyzxyz, estar and a lookup that knows one entry for ser and for
  estar and nothing for xyzxyz: initialization returns with the cursor on ser, at (0, 0);
  the first \<^verbatim>\<open>commit_entry\<close> returns with the cursor on estar, at (2, 0), and has not
  reported the end of the list; the second \<^verbatim>\<open>commit_entry\<close> returns having reported the
  end of the list.
\<close>

theorem ser_xyzxyz_estar:
  assumes "look_up ''ser'' = Returns (Some t1)" and "headword t1 = ''ser''"
    and "length (entries t1) = 1"
    and "look_up ''estar'' = Returns (Some t2)" and "headword t2 = ''estar''"
    and "length (entries t2) = 1"
    and "look_up ''xyzxyz'' = Returns None"
  shows "\<exists>s0 s1 s2.
    State_init look_up [''ser'', ''xyzxyz'', ''estar''] None w = Inr s0 \<and>
    cursor s0 = (0, 0) \<and>
    list_item (headwords s0) (headword_index (data s0)) = Some ''ser'' \<and>
    commit_entry look_up s0 = Inr s1 \<and>
    cursor s1 = (2, 0) \<and>
    list_item (headwords s1) (headword_index (data s1)) = Some ''estar'' \<and>
    Log INFO ReachedEnd \<notin> set (trace s1) \<and>
    commit_entry look_up s1 = Inr s2 \<and>
    Log INFO ReachedEnd \<in> set (trace s2)"
proof -
  let ?s0 = "\<lparr>headwords = [''ser'', ''xyzxyz'', ''estar''], data = default_data,
         lookup_cache = [''ser'' \<mapsto> t1], curator_history = None, history_writable = w,
         trace = [LookUp ''ser'']\<rparr>"
  let ?s1 = "save_history
     \<lparr>headwords = [''ser'', ''xyzxyz'', ''estar''],
      data = \<lparr>headword_index = 2, entry_index = 0,
        headword_entry_count = [(''ser'', 0), (''xyzxyz'', 0), (''estar'', 1)]\<rparr>,
      lookup_cache = [''ser'' \<mapsto> t1, ''estar'' \<mapsto> t2], curator_history = None,
      history_writable = w,
      trace = [LookUp ''ser'', Log ERROR (NoEntryCount ''ser''), LookUp ''xyzxyz'',
        LookUp ''estar'']\<rparr>"
  have i: "State_init look_up [''ser'', ''xyzxyz'', ''estar''] None w = Inr ?s0"
    using assms by (rule_tac ser_init) simp_all
  have c0: "cursor ?s0 = (0, 0)"
    and w0: "list_item (headwords ?s0) (headword_index (data ?s0)) = Some ''ser''"
    by (simp_all add: cursor_def default_data_def list_item_def)
  have c: "commit_entry look_up ?s0 = Inr ?s1"
    using assms by (rule_tac ser_commit) simp_all
  have c1: "cursor ?s1 = (2, 0)"
    and w1: "list_item (headwords ?s1) (headword_index (data ?s1)) = Some ''estar''"
    and t1: "Log INFO ReachedEnd \<notin> set (trace ?s1)"
    by (simp_all add: cursor_def save_history_def log_def list_item_def)
  have "\<exists>s2. commit_entry look_up ?s1 = Inr s2 \<and> cursor s2 = (2, 1) \<and>
    Log INFO ReachedEnd \<in> set (trace s2)"
    using assms(5) by (intro estar_commit [where ?t2.0 = t2]) (simp_all add: save_history_def log_def)
  then obtain s2 where "commit_entry look_up ?s1 = Inr s2"
    and "Log INFO ReachedEnd \<in> set (trace s2)"
    by blast
  with i c0 w0 c c1 w1 t1 show ?thesis
    by blast
qed


theorem ser_xyzxyz_estar_witness:
  "\<exists>s0 s1 s2.
    State_init ser_oracle [''ser'', ''xyzxyz'', ''estar''] None True = Inr s0 \<and>
    cursor s0 = (0, 0) \<and>
    list_item (headwords s0) (headword_index (data s0)) = Some ''ser'' \<and>
    commit_entry ser_oracle s0 = Inr s1 \<and>
    cursor s1 = (2, 0) \<and>
    list_item (headwords s1) (headword_index (data s1)) = Some ''estar'' \<and>
    Log INFO ReachedEnd \<notin> set (trace s1) \<and>
    commit_entry ser_oracle s1 = Inr s2 \<and>
    Log INFO ReachedEnd \<in> set (trace s2)"
proof -
  have a: "ser_oracle ''ser'' = Returns (Some ser_term)"
    and b: "ser_oracle ''estar'' = Returns (Some estar_term)"
    and c: "ser_oracle ''xyzxyz'' = Returns None"
    by (simp_all add: ser_oracle_def)
  show ?thesis
    by (rule ser_xyzxyz_estar [of ser_oracle ser_term estar_term])
      (simp_all add: a b c ser_term_def estar_term_def)
qed

lemma advance_back_over_zero:
  assumes "headword_index (data s) = int n" and "n \<le> length (headwords s)"
    and "list_all (\<lambda>w. get_count s w = Some 0) (take n (headwords s))"
  shows "advance_headword look_up (- 1) s =
    Some (False, if n = 0 then s
                 else s\<lparr>data := (data s)\<lparr>headword_index := 0, entry_index := 0\<rparr>\<rparr>)"
  using assms
proof (induction n arbitrary: s)
  case 0
  then show ?case
    by (subst advance_headword.simps) simp
next
  case (Suc k)
  let ?s1 = "s\<lparr>data := (data s)\<lparr>headword_index := int k, entry_index := 0\<rparr>\<rparr>"
  from Suc.prems have k: "k < length (headwords s)" by simp
  from Suc.prems k have z: "get_count s (headwords s ! k) = Some 0"
    by (simp add: list_all_length)
  have set: "set_headword_index look_up (int k) s = (Some (headwords s ! k), ?s1)"
    using k z by (simp add: set_headword_index_def get_count_def Let_def)
  have all: "list_all (\<lambda>w. get_count ?s1 w = Some 0) (take k (headwords ?s1))"
    using Suc.prems(3) k by (simp add: list_all_length get_count_def)
  have "advance_headword look_up (- 1) ?s1 =
    Some (False, if k = 0 then ?s1
                 else ?s1\<lparr>data := (data ?s1)\<lparr>headword_index := 0, entry_index := 0\<rparr>\<rparr>)"
    using k all by (intro Suc.IH) simp_all
  then have rec: "advance_headword look_up (- 1) ?s1 =
    Some (False, s\<lparr>data := (data s)\<lparr>headword_index := 0, entry_index := 0\<rparr>\<rparr>)"
    by (cases "k = 0") simp_all
  show ?case
    using Suc.prems(1) k z set rec
    by (subst advance_headword.simps) (simp add: Let_def get_count_def)
qed

lemma ser_oracle_simps:
  "ser_oracle ''ser'' = Returns (Some ser_term)"
  "ser_oracle ''estar'' = Returns (Some estar_term)"
  "ser_oracle ''xyzxyz'' = Returns None"
  by (simp_all add: ser_oracle_def)

lemma State_init_ser: "State_init ser_oracle ser_words None True = Inr ser_started"
  unfolding ser_words_def ser_started_def
  by (rule ser_init [of ser_oracle ser_term]) (simp_all add: ser_oracle_simps ser_term_def)

lemma commit_entry_ser: "commit_entry ser_oracle ser_started = Inr ser_committed"
  unfolding ser_started_def ser_committed_def
  by (rule ser_commit [of ser_oracle estar_term ser_term])
    (simp_all add: ser_oracle_simps ser_term_def estar_term_def)

lemma undo_over_zero_counts:
  assumes "0 < headword_index (data s)"
    and "headword_index (data s) < int (length (headwords s))"
    and "entry_index (data s) = 0"
    and "list_all (\<lambda>w. get_count s w = Some 0)
           (take (nat (headword_index (data s))) (headwords s))"
  shows "undo look_up s =
      Inr ((s\<lparr>data := (data s)\<lparr>headword_index := 0, entry_index := 0\<rparr>\<rparr>)
              \<lparr>trace := trace s @ [Log INFO AlreadyAtFirstEntry]\<rparr>) \<and>
    cursor s \<noteq> (0, 0)"
proof -
  have "advance_headword look_up (- 1) s =
    Some (False, if nat (headword_index (data s)) = 0 then s
                 else s\<lparr>data := (data s)\<lparr>headword_index := 0, entry_index := 0\<rparr>\<rparr>)"
    using assms by (intro advance_back_over_zero) simp_all
  with assms(1) have "go_to_previous_headword look_up s =
    (False, s\<lparr>data := (data s)\<lparr>headword_index := 0, entry_index := 0\<rparr>\<rparr>)"
    by (simp add: go_to_previous_headword_def)
  with assms(1,3) show ?thesis
    by (simp add: undo_def log_def cursor_def)
qed


lemma undo_ser: "undo ser_oracle ser_committed = Inr ser_undone"
proof -
  have c: "cursor ser_committed = (2, 0)"
    and l: "length (headwords ser_committed) = 3"
    and z: "list_all (\<lambda>w. get_count ser_committed w = Some 0)
     (take (nat (headword_index (data ser_committed))) (headwords ser_committed))"
    by (simp_all add: ser_committed_def save_history_def cursor_def get_count_def)
  from c have h: "0 < headword_index (data ser_committed)"
    "headword_index (data ser_committed) < int (length (headwords ser_committed))"
    "entry_index (data ser_committed) = 0"
    using l by (simp_all add: cursor_def)
  from undo_over_zero_counts [OF h z, of ser_oracle] show ?thesis
    by (simp add: ser_undone_def)
qed

text \<open>
  C10. When the cursor is on the first entry of a headword that is not the first, and
  every earlier headword has the recorded count 0, \<^verbatim>\<open>undo\<close> reports that it cannot undo
  and writes nothing (the trace gains the information record only, the history file is
  the same), yet it returns with \<^verbatim>\<open>headword_index\<close> set to 0: the cursor is not the one
  held before the call. The witness shows such a state reached by a fresh start and one
  commit.
\<close>

theorem undo_failure_moves_cursor:
  assumes "0 < headword_index (data s)"
    and "headword_index (data s) < int (length (headwords s))"
    and "entry_index (data s) = 0"
    and "list_all (\<lambda>w. get_count s w = Some 0)
           (take (nat (headword_index (data s))) (headwords s))"
  shows "undo look_up s =
      Inr ((s\<lparr>data := (data s)\<lparr>headword_index := 0, entry_index := 0\<rparr>\<rparr>)
              \<lparr>trace := trace s @ [Log INFO AlreadyAtFirstEntry]\<rparr>) \<and>
    cursor s \<noteq> (0, 0)"
  using assms by (rule undo_over_zero_counts)

theorem undo_failure_moves_cursor_witness:
  "State_init ser_oracle ser_words None True = Inr ser_started \<and>
   commit_entry ser_oracle ser_started = Inr ser_committed \<and>
   cursor ser_committed = (2, 0) \<and>
   list_all (\<lambda>w. get_count ser_committed w = Some 0)
     (take (nat (headword_index (data ser_committed))) (headwords ser_committed)) \<and>
   undo ser_oracle ser_committed =
     Inr ((ser_committed
             \<lparr>data := (data ser_committed)\<lparr>headword_index := 0, entry_index := 0\<rparr>\<rparr>)
             \<lparr>trace := trace ser_committed @ [Log INFO AlreadyAtFirstEntry]\<rparr>)"
proof -
  have c: "cursor ser_committed = (2, 0)"
    and l: "length (headwords ser_committed) = 3"
    and z: "list_all (\<lambda>w. get_count ser_committed w = Some 0)
     (take (nat (headword_index (data ser_committed))) (headwords ser_committed))"
    by (simp_all add: ser_committed_def save_history_def cursor_def get_count_def)
  from c have h: "0 < headword_index (data ser_committed)"
    "headword_index (data ser_committed) < int (length (headwords ser_committed))"
    "entry_index (data ser_committed) = 0"
    using l by (simp_all add: cursor_def)
  from undo_failure_moves_cursor [OF h z, of ser_oracle] State_init_ser commit_entry_ser c z
  show ?thesis
    by simp
qed

section \<open>The cursor moves forward\<close>

lemma advance_headword_forward:
  "advance_headword look_up 1 s = Some (b, s') \<Longrightarrow>
   cursor s' = cursor s \<or> headword_index (data s) < headword_index (data s')"
proof (induction look_up "1::int" s rule: advance_headword.induct)
  case (1 look_up s)
  show ?case
  proof (cases "set_headword_index look_up (headword_index (data s) + 1) s")
    case (Pair w s1)
    show ?thesis
    proof (cases w)
      case None
      with Pair 1(2) set_headword_index_None [of look_up _ s s1] show ?thesis
        by (subst (asm) advance_headword.simps)
          (auto simp add: Let_def log_def cursor_def split: if_splits)
    next
      case (Some word)
      note e = Pair [unfolded Some]
      from 1(2) Pair Some set_headword_index_Some [OF e] 1(1) [OF refl _ e [symmetric] refl]
      show ?thesis
        by (subst (asm) advance_headword.simps)
          (auto simp add: Let_def cursor_def split: if_splits)
    qed
  qed
qed

lemma go_to_next_headword_forward:
  "go_to_next_headword look_up s = (b, s') \<Longrightarrow>
   cursor s' = cursor s \<or> headword_index (data s) < headword_index (data s')"
  by (simp add: go_to_next_headword_eq advance_headword_forward)

lemma current_term_forward:
  "current_term look_up s = Inr (t, s') \<Longrightarrow>
   cursor s' = cursor s \<or> headword_index (data s) < headword_index (data s')"
proof (induction look_up s rule: current_term.induct)
  case (1 look_up s)
  from 1(2) obtain word where w: "list_item (headwords s) (headword_index (data s)) = Some word"
    by (subst (asm) current_term.simps) (auto split: option.splits)
  obtain r s1 where g: "get_term_for_headword look_up word s = (r, s1)"
    by (cases "get_term_for_headword look_up word s") auto
  note f = get_term_for_headword_frame [OF g]
  show ?case
  proof (cases r)
    case (Some t')
    with 1(2) w g f show ?thesis
      by (subst (asm) current_term.simps) (auto simp: cursor_def)
  next
    case None
    obtain b s2 where n: "go_to_next_headword look_up (log WARNING (FailedToGetTerm word) s1) = (b, s2)"
      by (cases "go_to_next_headword look_up (log WARNING (FailedToGetTerm word) s1)") auto
    from 1(2) w g None n have b: "b" and c: "current_term look_up s2 = Inr (t, s')"
      by (subst (asm) current_term.simps; auto split: bool.splits)+
    from go_to_next_headword_True [OF n [unfolded b [THEN eqTrueI]]] f
    have lt: "headword_index (data s) < headword_index (data s2)"
      by (simp add: log_def)
    from 1(1) [OF w g [symmetric] None n [symmetric]] b c
    have "cursor s' = cursor s2 \<or> headword_index (data s2) < headword_index (data s')"
      by simp
    with lt show ?thesis
      by (auto simp: cursor_def)
  qed
qed

lemma log_simps [simp]:
  "data (log l m s) = data s"
  "headwords (log l m s) = headwords s"
  "lookup_cache (log l m s) = lookup_cache s"
  "curator_history (log l m s) = curator_history s"
  "history_writable (log l m s) = history_writable s"
  "trace (log l m s) = trace s @ [Log l m]"
  by (simp_all add: log_def)

lemma set_count_simps [simp]:
  "headword_index (data (set_count w c s)) = headword_index (data s)"
  "entry_index (data (set_count w c s)) = entry_index (data s)"
  "headwords (set_count w c s) = headwords s"
  "lookup_cache (set_count w c s) = lookup_cache s"
  "curator_history (set_count w c s) = curator_history s"
  "history_writable (set_count w c s) = history_writable s"
  "trace (set_count w c s) = trace s"
  by (simp_all add: set_count_def)

lemma save_history_simps [simp]:
  "data (save_history s) = data s"
  "headwords (save_history s) = headwords s"
  "lookup_cache (save_history s) = lookup_cache s"
  "history_writable (save_history s) = history_writable s"
  by (simp_all add: save_history_def log_def)

lemma cursor_simps [simp]:
  "cursor (log l m s) = cursor s"
  "cursor (set_count w c s) = cursor s"
  "cursor (save_history s) = cursor s"
  by (simp_all add: cursor_def log_def set_count_def save_history_def)

text \<open>
  C4. Whenever \<^verbatim>\<open>commit_entry\<close> returns, the cursor it leaves is strictly greater, in the
  lexicographic order on (headword index, entry index), than the cursor it was given, and
  so is never smaller. This holds on every path that returns, the one that reports the
  end of the list included.
\<close>

theorem commit_entry_forward:
  assumes "commit_entry look_up s = Inr s'"
  shows "cursor_less (cursor s) (cursor s') \<and> \<not> cursor_less (cursor s') (cursor s)"
proof -
  let ?s0 = "s\<lparr>data := (data s)\<lparr>entry_index := entry_index (data s) + 1\<rparr>\<rparr>"
  from assms obtain t s1 where ct: "current_term look_up ?s0 = Inr (t, s1)"
    by (auto simp: commit_entry_def split: sum.splits)
  from current_term_forward [OF ct]
  have 1: "cursor_less (cursor s) (cursor s1)"
    by (auto simp: cursor_def)
  obtain b s3 where n: "go_to_next_headword look_up
      (set_count (headword t) 0 (log ERROR (NoEntryCount (headword t)) s1)) = (b, s3)"
    by (cases "go_to_next_headword look_up
      (set_count (headword t) 0 (log ERROR (NoEntryCount (headword t)) s1))") auto
  obtain b' s3' where n': "go_to_next_headword look_up s1 = (b', s3')"
    by (cases "go_to_next_headword look_up s1") auto
  from go_to_next_headword_forward [OF n] go_to_next_headword_forward [OF n']
  have 2: "cursor s3 = cursor s1 \<or> headword_index (data s1) < headword_index (data s3)"
    "cursor s3' = cursor s1 \<or> headword_index (data s1) < headword_index (data s3')"
    by simp_all
  from assms ct n n' have "cursor s' = cursor s1 \<or> cursor s' = cursor s3 \<or> cursor s' = cursor s3'"
    by (auto simp: commit_entry_def Let_def split: option.splits if_splits bool.splits)
  with 1 2 show ?thesis
    by (cases "cursor s"; cases "cursor s1"; cases "cursor s'"; cases "cursor s3"; cases "cursor s3'")
      (auto simp: cursor_def)
qed


theorem commit_entry_forward_witness:
  "commit_entry ser_oracle ser_started = Inr ser_committed \<and>
   cursor_less (cursor ser_started) (cursor ser_committed) \<and>
   \<not> cursor_less (cursor ser_committed) (cursor ser_started)"
  using commit_entry_forward [OF commit_entry_ser] commit_entry_ser by simp

section \<open>Recorded counts are stable\<close>

lemma keeps_counts_refl [simp]: "keeps_counts s s"
  by (simp add: keeps_counts_def)

lemma keeps_counts_trans: "keeps_counts s s' \<Longrightarrow> keeps_counts s' s'' \<Longrightarrow> keeps_counts s s''"
  by (simp add: keeps_counts_def)

lemma keeps_counts_data: "data s' = data s \<Longrightarrow> keeps_counts s s'"
  by (simp add: keeps_counts_def get_count_def)

lemma keeps_counts_cursor:
  "headword_entry_count (data s') = headword_entry_count (data s) \<Longrightarrow> keeps_counts s s'"
  by (simp add: keeps_counts_def get_count_def)

lemma keeps_counts_set_count:
  "get_count s w = None \<Longrightarrow> keeps_counts s (set_count w c s)"
  by (auto simp: keeps_counts_def get_count_def set_count_def update_conv')

lemma get_term_for_headword_keeps:
  "get_term_for_headword look_up word s = (r, s') \<Longrightarrow> keeps_counts s s'"
  by (auto dest!: get_term_for_headword_frame intro: keeps_counts_data)

lemma set_headword_index_keeps:
  assumes "set_headword_index look_up index s = (r, s')"
  shows "keeps_counts s s'"
proof (cases "0 \<le> index \<and> index < int (length (headwords s))")
  case False
  with assms show ?thesis
    by (auto simp: set_headword_index_def intro: keeps_counts_data)
next
  case True
  let ?s1 = "s\<lparr>data := (data s)\<lparr>headword_index := index, entry_index := 0\<rparr>\<rparr>"
  let ?w = "headwords s ! nat index"
  have 1: "keeps_counts s ?s1"
    by (rule keeps_counts_cursor) simp
  show ?thesis
  proof (cases "get_count ?s1 ?w = None")
    case False
    with assms True 1 show ?thesis
      by (auto simp: set_headword_index_def Let_def)
  next
    case n: True
    obtain t s2 where g: "get_term_for_headword look_up ?w ?s1 = (t, s2)"
      by (cases "get_term_for_headword look_up ?w ?s1") auto
    from get_term_for_headword_frame [OF g] n have n2: "get_count s2 ?w = None"
      by (simp add: get_count_def)
    from assms True n g obtain c where "s' = set_count ?w c s2"
      by (auto simp: set_headword_index_def Let_def)
    with keeps_counts_set_count [OF n2] have "keeps_counts s2 s'"
      by simp
    with 1 get_term_for_headword_keeps [OF g] show ?thesis
      by (blast intro: keeps_counts_trans)
  qed
qed

lemma advance_headword_keeps:
  "advance_headword look_up step s = Some (b, s') \<Longrightarrow> keeps_counts s s'"
proof (induction look_up step s rule: advance_headword.induct)
  case (1 look_up step s)
  show ?case
  proof (cases "set_headword_index look_up (headword_index (data s) + step) s")
    case (Pair w s1)
    note k = set_headword_index_keeps [OF Pair]
    show ?thesis
    proof (cases w)
      case None
      with Pair 1(2) k show ?thesis
        by (subst (asm) advance_headword.simps) (auto simp add: Let_def split: if_splits)
    next
      case (Some word)
      note e = Pair [unfolded Some]
      from 1(2) Pair Some k 1(1) [OF refl _ e [symmetric] refl]
      show ?thesis
        by (subst (asm) advance_headword.simps)
          (auto simp add: Let_def split: if_splits intro: keeps_counts_trans)
    qed
  qed
qed

lemma go_to_next_headword_keeps:
  "go_to_next_headword look_up s = (b, s') \<Longrightarrow> keeps_counts s s'"
  by (simp add: go_to_next_headword_eq advance_headword_keeps)

lemma go_to_previous_headword_keeps:
  "go_to_previous_headword look_up s = (b, s') \<Longrightarrow> keeps_counts s s'"
  by (simp add: go_to_previous_headword_eq advance_headword_keeps)

lemma current_term_keeps:
  "current_term look_up s = Inr (t, s') \<Longrightarrow> keeps_counts s s'"
proof (induction look_up s rule: current_term.induct)
  case (1 look_up s)
  from 1(2) obtain word where w: "list_item (headwords s) (headword_index (data s)) = Some word"
    by (subst (asm) current_term.simps) (auto split: option.splits)
  obtain r s1 where g: "get_term_for_headword look_up word s = (r, s1)"
    by (cases "get_term_for_headword look_up word s") auto
  note k = get_term_for_headword_keeps [OF g]
  show ?case
  proof (cases r)
    case (Some t')
    with 1(2) w g k show ?thesis
      by (subst (asm) current_term.simps) auto
  next
    case None
    obtain b s2 where n: "go_to_next_headword look_up (log WARNING (FailedToGetTerm word) s1) = (b, s2)"
      by (cases "go_to_next_headword look_up (log WARNING (FailedToGetTerm word) s1)") auto
    from 1(2) w g None n have b: "b" and c: "current_term look_up s2 = Inr (t, s')"
      by (subst (asm) current_term.simps; auto split: bool.splits)+
    have "keeps_counts s1 (log WARNING (FailedToGetTerm word) s1)"
      by (rule keeps_counts_data) simp
    with k go_to_next_headword_keeps [OF n] have "keeps_counts s s2"
      by (blast intro: keeps_counts_trans)
    with 1(1) [OF w g [symmetric] None n [symmetric]] b c show ?thesis
      by (auto intro: keeps_counts_trans)
  qed
qed

lemma save_history_keeps: "keeps_counts s s' \<Longrightarrow> keeps_counts s (save_history s')"
  by (simp add: keeps_counts_def get_count_def)

lemma log_keeps: "keeps_counts s s' \<Longrightarrow> keeps_counts s (log l m s')"
  by (simp add: keeps_counts_def get_count_def)

lemma commit_entry_keeps:
  assumes "commit_entry look_up s = Inr s'"
  shows "keeps_counts s s'"
proof -
  let ?s0 = "s\<lparr>data := (data s)\<lparr>entry_index := entry_index (data s) + 1\<rparr>\<rparr>"
  from assms obtain t s1 where ct: "current_term look_up ?s0 = Inr (t, s1)"
    by (auto simp: commit_entry_def split: sum.splits)
  have "keeps_counts s ?s0"
    by (rule keeps_counts_cursor) simp
  with current_term_keeps [OF ct] have 1: "keeps_counts s s1"
    by (blast intro: keeps_counts_trans)
  let ?s2 = "set_count (headword t) 0 (log ERROR (NoEntryCount (headword t)) s1)"
  have 2: "get_count s1 (headword t) = None \<Longrightarrow> keeps_counts s ?s2"
    using keeps_counts_set_count [of "log ERROR (NoEntryCount (headword t)) s1" "headword t" 0] 1
    by (auto simp: get_count_def intro: keeps_counts_trans log_keeps)
  obtain b s3 where n: "go_to_next_headword look_up ?s2 = (b, s3)"
    by (cases "go_to_next_headword look_up ?s2") auto
  obtain b' s3' where n': "go_to_next_headword look_up s1 = (b', s3')"
    by (cases "go_to_next_headword look_up s1") auto
  note k = go_to_next_headword_keeps [OF n] go_to_next_headword_keeps [OF n']
  from assms ct n n' 1 2 k show ?thesis
    by (auto simp: commit_entry_def Let_def split: option.splits if_splits bool.splits
        intro!: save_history_keeps log_keeps intro: keeps_counts_trans)
qed

lemma undo_keeps:
  assumes "undo look_up s = Inr s'"
  shows "keeps_counts s s'"
proof (cases "0 < entry_index (data s)")
  case True
  with assms show ?thesis
    by (auto simp: undo_def intro!: save_history_keeps keeps_counts_cursor)
next
  case False
  show ?thesis
  proof (cases "0 < headword_index (data s)")
    case h: False
    with False assms show ?thesis
      by (auto simp: undo_def intro!: log_keeps)
  next
    case h: True
    obtain b s1 where p: "go_to_previous_headword look_up s = (b, s1)"
      by (cases "go_to_previous_headword look_up s") auto
    note k = go_to_previous_headword_keeps [OF p]
    show ?thesis
    proof (cases b)
      case b: False
      with False h p assms k show ?thesis
        by (auto simp: undo_def intro!: log_keeps)
    next
      case b: True
      with False h p assms obtain t s2 where ct: "current_term look_up s1 = Inr (t, s2)"
        by (auto simp: undo_def split: sum.splits)
      from k current_term_keeps [OF ct] have "keeps_counts s s2"
        by (blast intro: keeps_counts_trans)
      moreover have "keeps_counts s2 (s2\<lparr>data := (data s2)\<lparr>entry_index := x\<rparr>\<rparr>)" for x
        by (rule keeps_counts_cursor) simp
      ultimately show ?thesis
        using False h p b assms ct
        by (auto simp: undo_def Let_def split: if_splits
            intro!: save_history_keeps log_keeps intro: keeps_counts_trans)
    qed
  qed
qed

lemma run_keeps: "run ops s = Inr s' \<Longrightarrow> keeps_counts s s'"
proof (induction ops arbitrary: s)
  case Nil
  then show ?case by simp
next
  case (Cons x ops)
  obtain look_up op where x: "x = (look_up, op)"
    by (cases x) auto
  with Cons.prems obtain s1 where p: "perform look_up op s = Inr s1" and r: "run ops s1 = Inr s'"
    by (auto split: sum.splits)
  from p have "keeps_counts s s1"
    by (cases op) (auto dest: commit_entry_keeps undo_keeps)
  with Cons.IH [OF r] show ?case
    by (blast intro: keeps_counts_trans)
qed


lemma set_headword_index_counted:
  assumes "get_count s (headwords s ! nat i) = Some c"
    and "0 \<le> i" and "i < int (length (headwords s))"
  shows "set_headword_index look_up i s =
    (Some (headwords s ! nat i), s\<lparr>data := (data s)\<lparr>headword_index := i, entry_index := 0\<rparr>\<rparr>)"
  using assms by (simp add: set_headword_index_def get_count_def Let_def)

text \<open>
  C7. Once a count is recorded for a word, it is the same after every sequence of
  \<^verbatim>\<open>commit_entry\<close> and \<^verbatim>\<open>undo\<close> calls that return, whatever the lookup answers during
  them; and \<^verbatim>\<open>_set_headword_index\<close>, the one place that derives a count from a lookup,
  then moves the cursor to that word without any call of the lookup (the trace and the
  cache are the ones it was given).
\<close>

theorem counts_stable:
  assumes "get_count s w = Some c" and "run ops s = Inr s'"
    and "0 \<le> i" and "i < int (length (headwords s'))" and "headwords s' ! nat i = w"
  shows "get_count s' w = Some c \<and>
    set_headword_index look_up i s' =
      (Some w, s'\<lparr>data := (data s')\<lparr>headword_index := i, entry_index := 0\<rparr>\<rparr>)"
proof -
  from run_keeps [OF assms(2)] assms(1) have c: "get_count s' w = Some c"
    by (simp add: keeps_counts_def)
  with assms(5) have "get_count s' (headwords s' ! nat i) = Some c"
    by simp
  from set_headword_index_counted [OF this assms(3,4)] c assms(5) show ?thesis
    by simp
qed

theorem counts_stable_witness:
  "get_count ser_committed ''ser'' = Some 0 \<and>
   run [(ser_oracle, Undo)] ser_committed = Inr ser_undone \<and>
   (0::int) \<le> 0 \<and> 0 < int (length (headwords ser_undone)) \<and>
   headwords ser_undone ! nat 0 = ''ser'' \<and>
   get_count ser_undone ''ser'' = Some 0 \<and>
   set_headword_index ser_oracle 0 ser_undone =
     (Some ''ser'',
      ser_undone\<lparr>data := (data ser_undone)\<lparr>headword_index := 0, entry_index := 0\<rparr>\<rparr>)"
proof -
  have g: "get_count ser_committed ''ser'' = Some 0"
    by (simp add: ser_committed_def get_count_def)
  have r: "run [(ser_oracle, Undo)] ser_committed = Inr ser_undone"
    by (simp add: undo_ser)
  have l: "0 < int (length (headwords ser_undone))"
    and w: "headwords ser_undone ! nat 0 = ''ser''"
    by (simp_all add: ser_undone_def ser_committed_def)
  from counts_stable [OF g r _ l w, of ser_oracle] g r l w show ?thesis
    by simp
qed

section \<open>What a run keeps true\<close>

text \<open>
  The lookup answers with a term or with nothing (an exception counts as nothing); a
  well-formed lookup files a term under the word it was asked for, as \<^verbatim>\<open>look_up\<close> of
  \<^verbatim>\<open>mw_api\<close> does (\<^verbatim>\<open>DictionaryTerm(search_word, ...)\<close>).
\<close>

definition term_of :: "lookup \<Rightarrow> string \<Rightarrow> dictionary_term option" where
  "term_of look_up w = (case look_up w of Raises \<Rightarrow> None | Returns r \<Rightarrow> r)"

definition wf_lookup :: "lookup \<Rightarrow> bool" where
  "wf_lookup look_up \<longleftrightarrow> (\<forall>w t. term_of look_up w = Some t \<longrightarrow> headword t = w)"

definition cache_ok :: "lookup \<Rightarrow> State \<Rightarrow> bool" where
  "cache_ok look_up s \<longleftrightarrow> (\<forall>w t. lookup_cache s w = Some t \<longrightarrow> term_of look_up w = Some t)"

definition counts_ok :: "lookup \<Rightarrow> (string \<times> int) list \<Rightarrow> bool" where
  "counts_ok look_up cs \<longleftrightarrow>
     (\<forall>w c. map_of cs w = Some c \<longrightarrow>
        c = 0 \<or> (\<exists>t. term_of look_up w = Some t \<and> int (length (entries t)) = c))"

definition count_at :: "State \<Rightarrow> int \<Rightarrow> int option" where
  "count_at s i = get_count s (headwords s ! nat i)"

text \<open>What a scan of the headwords keeps.\<close>

definition scanned :: "lookup \<Rightarrow> State \<Rightarrow> State \<Rightarrow> bool" where
  "scanned look_up s s' \<longleftrightarrow>
     headwords s' = headwords s \<and> curator_history s' = curator_history s \<and>
     history_writable s' = history_writable s \<and> cache_ok look_up s' \<and> keeps_counts s s' \<and>
     counts_ok look_up (headword_entry_count (data s'))"

lemma get_term_for_headword_spec:
  assumes "cache_ok look_up s" and "get_term_for_headword look_up w s = (r, s')"
  shows "r = term_of look_up w \<and> cache_ok look_up s' \<and> data s' = data s \<and>
    headwords s' = headwords s \<and> curator_history s' = curator_history s \<and>
    history_writable s' = history_writable s"
proof (cases "lookup_cache s w")
  case (Some t)
  with assms(1) have "term_of look_up w = Some t"
    by (simp add: cache_ok_def)
  with Some assms show ?thesis
    by (simp add: get_term_for_headword_def)
next
  case None
  show ?thesis
  proof (cases "term_of look_up w")
    case n: None
    then have "look_up w = Raises \<or> look_up w = Returns None"
      by (simp add: term_of_def split: lookup_result.splits)
    with None n assms show ?thesis
      by (auto simp: get_term_for_headword_def log_def cache_ok_def)
  next
    case (Some t)
    then have "look_up w = Returns (Some t)"
      by (simp add: term_of_def split: lookup_result.splits)
    with None Some assms show ?thesis
      by (auto simp: get_term_for_headword_def cache_ok_def split: if_splits)
  qed
qed

lemma counts_ok_update:
  assumes "counts_ok look_up cs"
    and "c = (case term_of look_up w of Some t \<Rightarrow> int (length (entries t)) | None \<Rightarrow> 0)"
  shows "counts_ok look_up (AList.update w c cs)"
  using assms
  by (auto simp: counts_ok_def update_conv' split: option.splits if_splits)

lemma set_headword_index_spec:
  assumes "cache_ok look_up s" and "counts_ok look_up (headword_entry_count (data s))"
    and "0 \<le> i" and "i < int (length (headwords s))"
  shows "\<exists>s'. set_headword_index look_up i s = (Some (headwords s ! nat i), s') \<and>
    scanned look_up s s' \<and> cursor s' = (i, 0) \<and>
    count_at s' i =
      (case count_at s i of
         Some c \<Rightarrow> Some c
       | None \<Rightarrow> Some (case term_of look_up (headwords s ! nat i) of
                        Some t \<Rightarrow> int (length (entries t)) | None \<Rightarrow> 0))"
proof -
  let ?s1 = "s\<lparr>data := (data s)\<lparr>headword_index := i, entry_index := 0\<rparr>\<rparr>"
  let ?w = "headwords s ! nat i"
  show ?thesis
  proof (cases "get_count s ?w")
    case (Some c)
    with assms show ?thesis
      by (auto simp: set_headword_index_def Let_def get_count_def scanned_def cache_ok_def
          cursor_def count_at_def intro!: keeps_counts_cursor)
  next
    case None
    obtain r s2 where g: "get_term_for_headword look_up ?w ?s1 = (r, s2)"
      by (cases "get_term_for_headword look_up ?w ?s1") auto
    from assms(1) have "cache_ok look_up ?s1"
      by (simp add: cache_ok_def)
    note sp = get_term_for_headword_spec [OF this g]
    let ?c = "case term_of look_up ?w of Some t \<Rightarrow> int (length (entries t)) | None \<Rightarrow> 0"
    let ?s' = "set_count ?w ?c s2"
    from None g sp assms(3,4) have e: "set_headword_index look_up i s = (Some ?w, ?s')"
      by (simp add: set_headword_index_def Let_def get_count_def)
    from sp None have n2: "get_count s2 ?w = None"
      by (simp add: get_count_def)
    have k: "keeps_counts s ?s'"
      using keeps_counts_set_count [OF n2, of ?c] sp
      by (auto simp: keeps_counts_def get_count_def)
    have ok: "counts_ok look_up (headword_entry_count (data ?s'))"
      using counts_ok_update [OF assms(2) refl, of ?w] sp
      by (simp add: set_count_def)
    have c: "cache_ok look_up ?s'"
      using sp by (simp add: cache_ok_def)
    from sp have cur: "cursor ?s' = (i, 0)" and hw: "headwords ?s' = headwords s"
      and f: "curator_history ?s' = curator_history s" "history_writable ?s' = history_writable s"
      by (simp_all add: cursor_def)
    have ca: "count_at ?s' i = Some ?c"
      using hw by (simp add: count_at_def get_count_def set_count_def update_conv')
    from None have "count_at s i = None"
      by (simp add: count_at_def)
    with e k ok c cur hw f ca show ?thesis
      by (simp add: scanned_def)
  qed
qed

definition positive_at :: "State \<Rightarrow> int \<Rightarrow> bool" where
  "positive_at s j = (case count_at s j of Some c \<Rightarrow> 0 < c | None \<Rightarrow> False)"

definition zero_at :: "State \<Rightarrow> int \<Rightarrow> bool" where
  "zero_at s j = (case count_at s j of Some c \<Rightarrow> c \<le> 0 | None \<Rightarrow> False)"

lemma scanned_refl:
  "cache_ok look_up s \<Longrightarrow> counts_ok look_up (headword_entry_count (data s)) \<Longrightarrow>
   scanned look_up s s"
  by (simp add: scanned_def)

lemma scanned_trans:
  "scanned look_up s s' \<Longrightarrow> scanned look_up s' s'' \<Longrightarrow> scanned look_up s s''"
  by (auto simp: scanned_def intro: keeps_counts_trans)

lemma scanned_count_at:
  "scanned look_up s s' \<Longrightarrow> count_at s j = Some c \<Longrightarrow> count_at s' j = Some c"
  by (simp add: scanned_def keeps_counts_def count_at_def)

lemma scanned_zero_at: "scanned look_up s s' \<Longrightarrow> zero_at s j \<Longrightarrow> zero_at s' j"
  by (auto simp: zero_at_def split: option.splits dest: scanned_count_at)

lemma scanned_positive_at: "scanned look_up s s' \<Longrightarrow> positive_at s j \<Longrightarrow> positive_at s' j"
  by (auto simp: positive_at_def split: option.splits dest: scanned_count_at)

lemma advance_forward_spec:
  assumes "cache_ok look_up s" and "counts_ok look_up (headword_entry_count (data s))"
    and "0 \<le> headword_index (data s)"
    and "headword_index (data s) < int (length (headwords s))"
  shows "\<exists>b s'. advance_headword look_up 1 s = Some (b, s') \<and> scanned look_up s s' \<and>
    (\<forall>j. headword_index (data s) < j \<and> j < headword_index (data s') \<longrightarrow> zero_at s' j) \<and>
    (b \<longrightarrow> headword_index (data s) < headword_index (data s') \<and>
            headword_index (data s') < int (length (headwords s)) \<and>
            entry_index (data s') = 0 \<and> positive_at s' (headword_index (data s'))) \<and>
    (\<not> b \<longrightarrow> (\<forall>j. headword_index (data s) < j \<and> j < int (length (headwords s)) \<longrightarrow> zero_at s' j) \<and>
          cursor s' = (if headword_index (data s) + 1 < int (length (headwords s))
                       then (int (length (headwords s)) - 1, 0) else cursor s))"
  using assms
proof (induction "nat (int (length (headwords s)) - headword_index (data s))"
    arbitrary: s rule: less_induct)
  case less
  define h where "h = headword_index (data s)"
  define n where "n = int (length (headwords s))"
  note prems = less.prems [folded h_def n_def]
  show ?case
    unfolding h_def [symmetric] n_def [symmetric]
  proof (cases "h + 1 < n")
    case False
    with prems have "advance_headword look_up 1 s = Some (False, s)"
      by (subst advance_headword.simps) (simp add: h_def n_def)
    moreover have "scanned look_up s s"
      using less.prems by (simp add: scanned_refl)
    moreover have "\<forall>j. h < j \<and> j < headword_index (data s) \<longrightarrow> zero_at s j"
      by (auto simp: h_def)
    moreover have "\<forall>j. h < j \<and> j < n \<longrightarrow> zero_at s j"
      using False by auto
    ultimately show "\<exists>b s'. advance_headword look_up 1 s = Some (b, s') \<and> scanned look_up s s' \<and>
      (\<forall>j. h < j \<and> j < headword_index (data s') \<longrightarrow> zero_at s' j) \<and>
      (b \<longrightarrow> h < headword_index (data s') \<and> headword_index (data s') < n \<and>
            entry_index (data s') = 0 \<and> positive_at s' (headword_index (data s'))) \<and>
      (\<not> b \<longrightarrow> (\<forall>j. h < j \<and> j < n \<longrightarrow> zero_at s' j) \<and>
          cursor s' = (if h + 1 < n then (n - 1, 0) else cursor s))"
      using False by (intro exI [of _ False] exI [of _ s]) simp
  next
    case True
    have "\<exists>s'. set_headword_index look_up (h + 1) s = (Some (headwords s ! nat (h + 1)), s') \<and>
      scanned look_up s s' \<and> cursor s' = (h + 1, 0) \<and>
      count_at s' (h + 1) =
        (case count_at s (h + 1) of
           Some c \<Rightarrow> Some c
         | None \<Rightarrow> Some (case term_of look_up (headwords s ! nat (h + 1)) of
                        Some t \<Rightarrow> int (length (entries t)) | None \<Rightarrow> 0))"
      using less.prems(1,2) prems(3) True
      by (intro set_headword_index_spec) (simp_all add: n_def)
    then obtain s1 where e: "set_headword_index look_up (h + 1) s = (Some (headwords s ! nat (h + 1)), s1)"
      and sc: "scanned look_up s s1" and cur: "cursor s1 = (h + 1, 0)"
      and ca: "count_at s1 (h + 1) \<noteq> None"
      by (auto split: option.splits)
    from sc have hw: "headwords s1 = headwords s"
      by (simp add: scanned_def)
    from cur have h1: "headword_index (data s1) = h + 1" and e1: "entry_index (data s1) = 0"
      by (simp_all add: cursor_def)
    show "\<exists>b s'. advance_headword look_up 1 s = Some (b, s') \<and> scanned look_up s s' \<and>
      (\<forall>j. h < j \<and> j < headword_index (data s') \<longrightarrow> zero_at s' j) \<and>
      (b \<longrightarrow> h < headword_index (data s') \<and> headword_index (data s') < n \<and>
            entry_index (data s') = 0 \<and> positive_at s' (headword_index (data s'))) \<and>
      (\<not> b \<longrightarrow> (\<forall>j. h < j \<and> j < n \<longrightarrow> zero_at s' j) \<and>
          cursor s' = (if h + 1 < n then (n - 1, 0) else cursor s))"
    proof (cases "positive_at s1 (h + 1)")
      case p: True
      then have "0 < (case get_count s1 (headwords s ! nat (h + 1)) of None \<Rightarrow> 0 | Some c \<Rightarrow> c)"
        by (auto simp: positive_at_def count_at_def hw split: option.splits)
      with True prems(3) e have "advance_headword look_up 1 s = Some (True, s1)"
        by (subst advance_headword.simps) (simp add: Let_def h_def n_def)
      moreover have "\<forall>j. h < j \<and> j < headword_index (data s1) \<longrightarrow> zero_at s1 j"
        by (auto simp: h1)
      ultimately show ?thesis
        using p sc h1 e1 True by (intro exI [of _ True] exI [of _ s1]) simp
    next
      case p: False
      with ca have z: "zero_at s1 (h + 1)"
        by (auto simp: positive_at_def zero_at_def split: option.splits)
      from p have "\<not> 0 < (case get_count s1 (headwords s ! nat (h + 1)) of None \<Rightarrow> 0 | Some c \<Rightarrow> c)"
        by (auto simp: positive_at_def count_at_def hw split: option.splits)
      with True prems(3) e
      have u: "advance_headword look_up 1 s = advance_headword look_up 1 s1"
        by (subst advance_headword.simps) (simp add: Let_def h_def n_def)
      have m: "nat (int (length (headwords s1)) - headword_index (data s1)) <
          nat (int (length (headwords s)) - headword_index (data s))"
        using True hw h1 by (simp add: h_def n_def)
      from sc have c1: "cache_ok look_up s1"
        and c2: "counts_ok look_up (headword_entry_count (data s1))"
        by (simp_all add: scanned_def)
      have r1: "0 \<le> headword_index (data s1)"
        and r2: "headword_index (data s1) < int (length (headwords s1))"
        using True prems(3) hw h1 by (simp_all add: n_def)
      from less.hyps [OF m c1 c2 r1 r2]
      obtain b s' where a: "advance_headword look_up 1 s1 = Some (b, s')"
        and sc': "scanned look_up s1 s'"
        and btw: "\<forall>j. h + 1 < j \<and> j < headword_index (data s') \<longrightarrow> zero_at s' j"
        and rt: "b \<longrightarrow> h + 1 < headword_index (data s') \<and>
            headword_index (data s') < n \<and>
            entry_index (data s') = 0 \<and> positive_at s' (headword_index (data s'))"
        and rf: "\<not> b \<longrightarrow> (\<forall>j. h + 1 < j \<and> j < n \<longrightarrow> zero_at s' j) \<and>
            cursor s' = (if h + 1 + 1 < n then (n - 1, 0) else cursor s1)"
        unfolding hw h1 n_def [symmetric] by blast
      from scanned_zero_at [OF sc' z] have z': "zero_at s' (h + 1)" .
      have b1: "\<forall>j. h < j \<and> j < headword_index (data s') \<longrightarrow> zero_at s' j"
      proof (intro allI impI)
        fix j assume "h < j \<and> j < headword_index (data s')"
        then have "j = h + 1 \<or> (h + 1 < j \<and> j < headword_index (data s'))"
          by arith
        with z' btw show "zero_at s' j"
          by blast
      qed
      have b2: "\<forall>j. h < j \<and> j < n \<longrightarrow> zero_at s' j" if nb: "\<not> b"
      proof (intro allI impI)
        fix j assume "h < j \<and> j < n"
        then have "j = h + 1 \<or> (h + 1 < j \<and> j < n)"
          by arith
        with z' rf nb show "zero_at s' j"
          by blast
      qed
      have b3: "cursor s' = (n - 1, 0)" if nb: "\<not> b"
      proof (cases "h + 1 + 1 < n")
        case True
        with rf nb show ?thesis by simp
      next
        case False
        with rf nb have "cursor s' = cursor s1" by simp
        with cur False \<open>h + 1 < n\<close> show ?thesis by simp
      qed
      have b4: "h < headword_index (data s')" if "b"
        using rt that by simp
      from u a have a': "advance_headword look_up 1 s = Some (b, s')"
        by simp
      from a' scanned_trans [OF sc sc'] b1 b2 b3 b4 rt True show ?thesis
        by (intro exI [of _ b] exI [of _ s']) simp
    qed
  qed
qed


lemma advance_backward_spec:
  assumes "cache_ok look_up s" and "counts_ok look_up (headword_entry_count (data s))"
    and "0 \<le> headword_index (data s)"
    and "headword_index (data s) < int (length (headwords s))"
  shows "\<exists>b s'. advance_headword look_up (- 1) s = Some (b, s') \<and> scanned look_up s s' \<and>
    (\<forall>j. headword_index (data s') < j \<and> j < headword_index (data s) \<longrightarrow> zero_at s' j) \<and>
    (b \<longrightarrow> 0 \<le> headword_index (data s') \<and>
            headword_index (data s') < headword_index (data s) \<and>
            entry_index (data s') = 0 \<and> positive_at s' (headword_index (data s'))) \<and>
    (\<not> b \<longrightarrow> (\<forall>j. 0 \<le> j \<and> j < headword_index (data s) \<longrightarrow> zero_at s' j) \<and>
          cursor s' = (if 0 < headword_index (data s) then (0, 0) else cursor s))"
  using assms
proof (induction "nat (headword_index (data s))" arbitrary: s rule: less_induct)
  case less
  define h where "h = headword_index (data s)"
  define n where "n = int (length (headwords s))"
  note prems = less.prems [folded h_def n_def]
  show ?case
    unfolding h_def [symmetric] n_def [symmetric]
  proof (cases "0 < h")
    case False
    with prems have "advance_headword look_up (- 1) s = Some (False, s)"
      by (subst advance_headword.simps) (simp add: h_def n_def)
    moreover have "scanned look_up s s"
      using less.prems by (simp add: scanned_refl)
    moreover have "\<forall>j. headword_index (data s) < j \<and> j < h \<longrightarrow> zero_at s j"
      by (auto simp: h_def)
    moreover have "\<forall>j. 0 \<le> j \<and> j < h \<longrightarrow> zero_at s j"
      using False by auto
    ultimately show "\<exists>b s'. advance_headword look_up (- 1) s = Some (b, s') \<and>
      scanned look_up s s' \<and>
      (\<forall>j. headword_index (data s') < j \<and> j < h \<longrightarrow> zero_at s' j) \<and>
      (b \<longrightarrow> 0 \<le> headword_index (data s') \<and> headword_index (data s') < h \<and>
            entry_index (data s') = 0 \<and> positive_at s' (headword_index (data s'))) \<and>
      (\<not> b \<longrightarrow> (\<forall>j. 0 \<le> j \<and> j < h \<longrightarrow> zero_at s' j) \<and>
          cursor s' = (if 0 < h then (0, 0) else cursor s))"
      using False by (intro exI [of _ False] exI [of _ s]) simp
  next
    case True
    have "\<exists>s'. set_headword_index look_up (h - 1) s = (Some (headwords s ! nat (h - 1)), s') \<and>
      scanned look_up s s' \<and> cursor s' = (h - 1, 0) \<and>
      count_at s' (h - 1) =
        (case count_at s (h - 1) of
           Some c \<Rightarrow> Some c
         | None \<Rightarrow> Some (case term_of look_up (headwords s ! nat (h - 1)) of
                        Some t \<Rightarrow> int (length (entries t)) | None \<Rightarrow> 0))"
      using less.prems(1,2) prems(4) True
      by (intro set_headword_index_spec) (simp_all add: n_def)
    then obtain s1 where e: "set_headword_index look_up (h - 1) s = (Some (headwords s ! nat (h - 1)), s1)"
      and sc: "scanned look_up s s1" and cur: "cursor s1 = (h - 1, 0)"
      and ca: "count_at s1 (h - 1) \<noteq> None"
      by (auto split: option.splits)
    from sc have hw: "headwords s1 = headwords s"
      by (simp add: scanned_def)
    from cur have h1: "headword_index (data s1) = h - 1" and e1: "entry_index (data s1) = 0"
      by (simp_all add: cursor_def)
    show "\<exists>b s'. advance_headword look_up (- 1) s = Some (b, s') \<and>
      scanned look_up s s' \<and>
      (\<forall>j. headword_index (data s') < j \<and> j < h \<longrightarrow> zero_at s' j) \<and>
      (b \<longrightarrow> 0 \<le> headword_index (data s') \<and> headword_index (data s') < h \<and>
            entry_index (data s') = 0 \<and> positive_at s' (headword_index (data s'))) \<and>
      (\<not> b \<longrightarrow> (\<forall>j. 0 \<le> j \<and> j < h \<longrightarrow> zero_at s' j) \<and>
          cursor s' = (if 0 < h then (0, 0) else cursor s))"
    proof (cases "positive_at s1 (h - 1)")
      case p: True
      then have "0 < (case get_count s1 (headwords s ! nat (h - 1)) of None \<Rightarrow> 0 | Some c \<Rightarrow> c)"
        by (auto simp: positive_at_def count_at_def hw split: option.splits)
      with True prems(4) e have "advance_headword look_up (- 1) s = Some (True, s1)"
        by (subst advance_headword.simps) (simp add: Let_def h_def n_def)
      moreover have "\<forall>j. headword_index (data s1) < j \<and> j < h \<longrightarrow> zero_at s1 j"
        by (auto simp: h1)
      ultimately show ?thesis
        using p sc h1 e1 True by (intro exI [of _ True] exI [of _ s1]) simp
    next
      case p: False
      with ca have z: "zero_at s1 (h - 1)"
        by (auto simp: positive_at_def zero_at_def split: option.splits)
      from p have "\<not> 0 < (case get_count s1 (headwords s ! nat (h - 1)) of None \<Rightarrow> 0 | Some c \<Rightarrow> c)"
        by (auto simp: positive_at_def count_at_def hw split: option.splits)
      with True prems(4) e
      have u: "advance_headword look_up (- 1) s = advance_headword look_up (- 1) s1"
        by (subst advance_headword.simps) (simp add: Let_def h_def n_def)
      have m: "nat (headword_index (data s1)) < nat (headword_index (data s))"
        using True h1 by (simp add: h_def)
      from sc have c1: "cache_ok look_up s1"
        and c2: "counts_ok look_up (headword_entry_count (data s1))"
        by (simp_all add: scanned_def)
      have r1: "0 \<le> headword_index (data s1)"
        and r2: "headword_index (data s1) < int (length (headwords s1))"
        using True prems(4) hw h1 by (simp_all add: n_def)
      from less.hyps [OF m c1 c2 r1 r2]
      obtain b s' where a: "advance_headword look_up (- 1) s1 = Some (b, s')"
        and sc': "scanned look_up s1 s'"
        and btw: "\<forall>j. headword_index (data s') < j \<and> j < h - 1 \<longrightarrow> zero_at s' j"
        and rt: "b \<longrightarrow> 0 \<le> headword_index (data s') \<and>
            headword_index (data s') < h - 1 \<and>
            entry_index (data s') = 0 \<and> positive_at s' (headword_index (data s'))"
        and rf: "\<not> b \<longrightarrow> (\<forall>j. 0 \<le> j \<and> j < h - 1 \<longrightarrow> zero_at s' j) \<and>
            cursor s' = (if 0 < h - 1 then (0, 0) else cursor s1)"
        unfolding hw h1 by blast
      from scanned_zero_at [OF sc' z] have z': "zero_at s' (h - 1)" .
      have b1: "\<forall>j. headword_index (data s') < j \<and> j < h \<longrightarrow> zero_at s' j"
      proof (intro allI impI)
        fix j assume "headword_index (data s') < j \<and> j < h"
        then have "j = h - 1 \<or> (headword_index (data s') < j \<and> j < h - 1)"
          by arith
        with z' btw show "zero_at s' j"
          by blast
      qed
      have b2: "\<forall>j. 0 \<le> j \<and> j < h \<longrightarrow> zero_at s' j" if nb: "\<not> b"
      proof (intro allI impI)
        fix j assume "0 \<le> j \<and> j < h"
        then have "j = h - 1 \<or> (0 \<le> j \<and> j < h - 1)"
          by arith
        with z' rf nb show "zero_at s' j"
          by blast
      qed
      have b3: "cursor s' = (0, 0)" if nb: "\<not> b"
      proof (cases "0 < h - 1")
        case True
        with rf nb show ?thesis by simp
      next
        case False
        with rf nb have "cursor s' = cursor s1" by simp
        with cur False \<open>0 < h\<close> show ?thesis by simp
      qed
      have b4: "headword_index (data s') < h" if "b"
        using rt that by simp
      from u a have a': "advance_headword look_up (- 1) s = Some (b, s')"
        by simp
      from a' scanned_trans [OF sc sc'] b1 b2 b3 b4 rt True show ?thesis
        by (intro exI [of _ b] exI [of _ s']) simp
    qed
  qed
qed

lemma positive_not_zero: "positive_at s j \<Longrightarrow> zero_at s j \<Longrightarrow> False"
  by (auto simp: positive_at_def zero_at_def split: option.splits)

lemma positive_at_term:
  assumes "counts_ok look_up (headword_entry_count (data s))" and "positive_at s j"
  shows "\<exists>t c. term_of look_up (headwords s ! nat j) = Some t \<and> count_at s j = Some c \<and>
    0 < c \<and> int (length (entries t)) = c"
proof -
  from assms(2) obtain c where c: "count_at s j = Some c" "0 < c"
    by (auto simp: positive_at_def split: option.splits)
  then have "map_of (headword_entry_count (data s)) (headwords s ! nat j) = Some c"
    by (simp add: count_at_def get_count_def)
  with assms(1) c(2) obtain t where "term_of look_up (headwords s ! nat j) = Some t"
    "int (length (entries t)) = c"
    unfolding counts_ok_def by fastforce
  with c show ?thesis by blast
qed

lemma list_item_in_range:
  "0 \<le> i \<Longrightarrow> i < int (length xs) \<Longrightarrow> list_item xs i = Some (xs ! nat i)"
  by (simp add: list_item_def)

lemma current_term_found:
  assumes "cache_ok look_up s" and "0 \<le> headword_index (data s)"
    and "headword_index (data s) < int (length (headwords s))"
    and "term_of look_up (headwords s ! nat (headword_index (data s))) = Some t"
  shows "\<exists>s'. current_term look_up s = Inr (t, s') \<and> data s' = data s \<and>
    headwords s' = headwords s \<and> cache_ok look_up s' \<and>
    curator_history s' = curator_history s \<and> history_writable s' = history_writable s"
proof -
  let ?w = "headwords s ! nat (headword_index (data s))"
  obtain r s1 where g: "get_term_for_headword look_up ?w s = (r, s1)"
    by (cases "get_term_for_headword look_up ?w s") auto
  note sp = get_term_for_headword_spec [OF assms(1) g]
  with assms(4) have r: "r = Some t" by simp
  from assms(2,3) g r have "current_term look_up s = Inr (t, s1)"
    by (subst current_term.simps) (simp add: list_item_in_range)
  with sp show ?thesis by simp
qed

lemma scanned_log:
  "scanned look_up s s' \<Longrightarrow> scanned look_up s (log l m s')"
  by (simp add: scanned_def cache_ok_def keeps_counts_def get_count_def)

lemma scanned_same_data:
  assumes "cache_ok look_up s'" and "counts_ok look_up (headword_entry_count (data s))"
    and "data s' = data s" and "headwords s' = headwords s"
    and "curator_history s' = curator_history s" and "history_writable s' = history_writable s"
  shows "scanned look_up s s'"
  using assms by (simp add: scanned_def keeps_counts_def get_count_def)

lemma current_term_skip:
  assumes "cache_ok look_up s" and "counts_ok look_up (headword_entry_count (data s))"
    and "0 \<le> headword_index (data s)"
    and "headword_index (data s) < int (length (headwords s))"
    and "term_of look_up (headwords s ! nat (headword_index (data s))) = None"
  shows "(\<exists>t s'. current_term look_up s = Inr (t, s') \<and> scanned look_up s s' \<and>
      headword_index (data s) < headword_index (data s') \<and>
      headword_index (data s') < int (length (headwords s)) \<and>
      entry_index (data s') = 0 \<and> positive_at s' (headword_index (data s')) \<and>
      (\<forall>j. headword_index (data s) < j \<and> j < headword_index (data s') \<longrightarrow> zero_at s' j) \<and>
      term_of look_up (headwords s ! nat (headword_index (data s'))) = Some t) \<or>
    (\<exists>x s'. current_term look_up s = Inl (x, s') \<and> scanned look_up s s' \<and>
      (\<forall>j. headword_index (data s) < j \<and> j < int (length (headwords s)) \<longrightarrow> zero_at s' j))"
proof -
  define h where "h = headword_index (data s)"
  define n where "n = int (length (headwords s))"
  let ?w = "headwords s ! nat h"
  obtain r s1 where g: "get_term_for_headword look_up ?w s = (r, s1)"
    by (cases "get_term_for_headword look_up ?w s") auto
  note sp = get_term_for_headword_spec [OF assms(1) g]
  with assms(5) have r: "r = None" by (simp add: h_def)
  define s1' where "s1' = log WARNING (FailedToGetTerm ?w) s1"
  have d1: "data s1' = data s" and hw1: "headwords s1' = headwords s"
    and c1: "cache_ok look_up s1'"
    and f1: "curator_history s1' = curator_history s" "history_writable s1' = history_writable s"
    using sp by (simp_all add: s1'_def cache_ok_def)
  have sc1: "scanned look_up s s1'"
    using c1 assms(2) d1 hw1 f1 by (rule scanned_same_data)
  have "\<exists>b s'. advance_headword look_up 1 s1' = Some (b, s') \<and> scanned look_up s1' s' \<and>
    (\<forall>j. headword_index (data s1') < j \<and> j < headword_index (data s') \<longrightarrow> zero_at s' j) \<and>
    (b \<longrightarrow> headword_index (data s1') < headword_index (data s') \<and>
            headword_index (data s') < int (length (headwords s1')) \<and>
            entry_index (data s') = 0 \<and> positive_at s' (headword_index (data s'))) \<and>
    (\<not> b \<longrightarrow> (\<forall>j. headword_index (data s1') < j \<and> j < int (length (headwords s1')) \<longrightarrow> zero_at s' j) \<and>
          cursor s' = (if headword_index (data s1') + 1 < int (length (headwords s1'))
                       then (int (length (headwords s1')) - 1, 0) else cursor s1'))"
    using c1 assms(2,3,4) by (intro advance_forward_spec) (simp_all add: d1 hw1)
  then obtain b s2 where a: "advance_headword look_up 1 s1' = Some (b, s2)"
    and sc2: "scanned look_up s1' s2"
    and btw: "\<forall>j. h < j \<and> j < headword_index (data s2) \<longrightarrow> zero_at s2 j"
    and rt: "b \<longrightarrow> h < headword_index (data s2) \<and> headword_index (data s2) < n \<and>
            entry_index (data s2) = 0 \<and> positive_at s2 (headword_index (data s2))"
    and rf: "\<not> b \<longrightarrow> (\<forall>j. h < j \<and> j < n \<longrightarrow> zero_at s2 j)"
    unfolding d1 hw1 h_def [symmetric] n_def [symmetric] by blast
  from a have n: "go_to_next_headword look_up s1' = (b, s2)"
    by (simp add: go_to_next_headword_eq)
  note sc = scanned_trans [OF sc1 sc2]
  then have hw2: "headwords s2 = headwords s" and c2: "cache_ok look_up s2"
    and ok2: "counts_ok look_up (headword_entry_count (data s2))"
    by (simp_all add: scanned_def)
  have unfold: "current_term look_up s =
    (if b then current_term look_up s2 else Inl (SystemExit, log ERROR NoMoreValidTerms s2))"
    using assms(3,4) g r n
    by (subst current_term.simps) (simp add: list_item_in_range h_def s1'_def)
  show ?thesis
  proof (cases b)
    case False
    with unfold rf scanned_log [OF sc] show ?thesis
      unfolding h_def [symmetric] n_def [symmetric]
      by (intro disjI2 exI [of _ SystemExit] exI [of _ "log ERROR NoMoreValidTerms s2"])
        (simp add: zero_at_def count_at_def get_count_def)
  next
    case True
    with rt have p: "positive_at s2 (headword_index (data s2))"
      and r2: "h < headword_index (data s2)" "headword_index (data s2) < n"
      and e2: "entry_index (data s2) = 0"
      by simp_all
    from positive_at_term [OF ok2 p] obtain t
      where t: "term_of look_up (headwords s2 ! nat (headword_index (data s2))) = Some t"
      by blast
    have "\<exists>s'. current_term look_up s2 = Inr (t, s') \<and> data s' = data s2 \<and>
      headwords s' = headwords s2 \<and> cache_ok look_up s' \<and>
      curator_history s' = curator_history s2 \<and> history_writable s' = history_writable s2"
      using c2 r2 assms(3) t by (intro current_term_found) (simp_all add: hw2 h_def n_def)
    then obtain s3 where ct: "current_term look_up s2 = Inr (t, s3)"
      and d3: "data s3 = data s2" and hw3: "headwords s3 = headwords s2"
      and c3: "cache_ok look_up s3"
      and f3: "curator_history s3 = curator_history s2" "history_writable s3 = history_writable s2"
      by blast
    have sc3: "scanned look_up s2 s3"
      using c3 ok2 d3 hw3 f3 by (rule scanned_same_data)
    have same: "zero_at s3 j = zero_at s2 j" "positive_at s3 j = positive_at s2 j" for j
      by (simp_all add: zero_at_def positive_at_def count_at_def get_count_def d3 hw3)
    from True unfold ct have "current_term look_up s = Inr (t, s3)"
      by simp
    with scanned_trans [OF sc sc3] r2 e2 p btw t show ?thesis
      unfolding h_def [symmetric] n_def [symmetric]
      by (intro disjI1 exI [of _ t] exI [of _ s3]) (simp add: same d3 hw2)
  qed
qed

fun scan_event :: "event \<Rightarrow> bool" where
  "scan_event (LookUp w) = True"
| "scan_event (Log ERROR (LookupFailed w)) = True"
| "scan_event (Log WARNING (FailedToGetTerm w)) = True"
| "scan_event (Log ERROR (WordIndexOutOfRange i)) = True"
| "scan_event (Log ERROR (NoEntryCount w)) = True"
| "scan_event _ = False"

definition appended :: "State \<Rightarrow> State \<Rightarrow> event list" where
  "appended s s' = drop (length (trace s)) (trace s')"

definition quiet :: "State \<Rightarrow> State \<Rightarrow> bool" where
  "quiet s s' \<longleftrightarrow> (\<exists>xs. trace s' = trace s @ xs \<and> list_all scan_event xs)"

lemma quiet_refl [simp]: "quiet s s"
  by (simp add: quiet_def)

lemma quiet_trans: "quiet s s' \<Longrightarrow> quiet s' s'' \<Longrightarrow> quiet s s''"
  by (auto simp: quiet_def)

lemma quiet_trace: "trace s' = trace s \<Longrightarrow> quiet s s'"
  by (simp add: quiet_def)

lemma quiet_log: "scan_event (Log l m) \<Longrightarrow> quiet s s' \<Longrightarrow> quiet s (log l m s')"
  by (auto simp: quiet_def log_def)

lemma get_term_for_headword_quiet:
  "get_term_for_headword look_up w s = (r, s') \<Longrightarrow> quiet s s'"
  by (auto simp: get_term_for_headword_def quiet_def log_def
      split: option.splits lookup_result.splits)

lemma set_headword_index_quiet:
  assumes "set_headword_index look_up i s = (r, s')"
  shows "quiet s s'"
proof (cases "0 \<le> i \<and> i < int (length (headwords s))")
  case False
  with assms show ?thesis
    by (auto simp: set_headword_index_def quiet_def log_def)
next
  case True
  let ?s1 = "s\<lparr>data := (data s)\<lparr>headword_index := i, entry_index := 0\<rparr>\<rparr>"
  obtain t s2 where g: "get_term_for_headword look_up (headwords s ! nat i) ?s1 = (t, s2)"
    by (cases "get_term_for_headword look_up (headwords s ! nat i) ?s1") auto
  from get_term_for_headword_quiet [OF g] have "quiet s s2"
    by (simp add: quiet_def)
  with assms True g show ?thesis
    by (auto simp: set_headword_index_def Let_def quiet_def set_count_def split: if_splits)
qed

lemma advance_headword_quiet:
  "advance_headword look_up step s = Some (b, s') \<Longrightarrow> quiet s s'"
proof (induction look_up step s rule: advance_headword.induct)
  case (1 look_up step s)
  show ?case
  proof (cases "set_headword_index look_up (headword_index (data s) + step) s")
    case (Pair w s1)
    note k = set_headword_index_quiet [OF Pair]
    show ?thesis
    proof (cases w)
      case None
      with Pair 1(2) k show ?thesis
        by (subst (asm) advance_headword.simps) (auto simp add: Let_def split: if_splits)
    next
      case (Some word)
      note e = Pair [unfolded Some]
      from 1(2) Pair Some k 1(1) [OF refl _ e [symmetric] refl]
      show ?thesis
        by (subst (asm) advance_headword.simps)
          (auto simp add: Let_def split: if_splits intro: quiet_trans)
    qed
  qed
qed

lemma go_to_next_headword_quiet:
  "go_to_next_headword look_up s = (b, s') \<Longrightarrow> quiet s s'"
  by (simp add: go_to_next_headword_eq advance_headword_quiet)

lemma go_to_previous_headword_quiet:
  "go_to_previous_headword look_up s = (b, s') \<Longrightarrow> quiet s s'"
  by (simp add: go_to_previous_headword_eq advance_headword_quiet)

lemma current_term_quiet:
  "current_term look_up s = Inr (t, s') \<Longrightarrow> quiet s s'"
proof (induction look_up s rule: current_term.induct)
  case (1 look_up s)
  from 1(2) obtain word where w: "list_item (headwords s) (headword_index (data s)) = Some word"
    by (subst (asm) current_term.simps) (auto split: option.splits)
  obtain r s1 where g: "get_term_for_headword look_up word s = (r, s1)"
    by (cases "get_term_for_headword look_up word s") auto
  note k = get_term_for_headword_quiet [OF g]
  show ?case
  proof (cases r)
    case (Some t')
    with 1(2) w g k show ?thesis
      by (subst (asm) current_term.simps) auto
  next
    case None
    obtain b s2 where n: "go_to_next_headword look_up (log WARNING (FailedToGetTerm word) s1) = (b, s2)"
      by (cases "go_to_next_headword look_up (log WARNING (FailedToGetTerm word) s1)") auto
    from 1(2) w g None n have b: "b" and c: "current_term look_up s2 = Inr (t, s')"
      by (subst (asm) current_term.simps; auto split: bool.splits)+
    have "quiet s (log WARNING (FailedToGetTerm word) s1)"
      using k by (intro quiet_log) simp_all
    with go_to_next_headword_quiet [OF n] have "quiet s s2"
      by (blast intro: quiet_trans)
    with 1(1) [OF w g [symmetric] None n [symmetric]] b c show ?thesis
      by (auto intro: quiet_trans)
  qed
qed

lemma quiet_appended:
  "quiet s s' \<Longrightarrow> \<not> scan_event x \<Longrightarrow> x \<notin> set (appended s s')"
  by (auto simp: quiet_def appended_def list_all_iff)

lemma quiet_save_history:
  assumes "quiet s s'"
  shows "Log INFO ReachedEnd \<notin> set (appended s (save_history s'))"
    and "Log INFO AlreadyAtFirstEntry \<notin> set (appended s (save_history s'))"
  using assms
  by (auto simp: quiet_def appended_def save_history_def log_def list_all_iff
      dest: bspec [where x = "Log INFO ReachedEnd"]
        bspec [where x = "Log INFO AlreadyAtFirstEntry"])

definition stepped :: "lookup \<Rightarrow> State \<Rightarrow> State \<Rightarrow> bool" where
  "stepped look_up s s' \<longleftrightarrow>
     headwords s' = headwords s \<and> history_writable s' = history_writable s \<and>
     cache_ok look_up s' \<and> keeps_counts s s' \<and>
     counts_ok look_up (headword_entry_count (data s'))"

lemma scanned_stepped: "scanned look_up s s' \<Longrightarrow> stepped look_up s s'"
  by (simp add: scanned_def stepped_def)

lemma stepped_trans:
  "stepped look_up s s' \<Longrightarrow> stepped look_up s' s'' \<Longrightarrow> stepped look_up s s''"
  by (auto simp: stepped_def intro: keeps_counts_trans)

lemma stepped_save_history:
  "stepped look_up s s' \<Longrightarrow> stepped look_up s (save_history s')"
  by (simp add: stepped_def cache_ok_def keeps_counts_def get_count_def)

lemma stepped_log: "stepped look_up s s' \<Longrightarrow> stepped look_up s (log l m s')"
  by (simp add: stepped_def cache_ok_def keeps_counts_def get_count_def)

lemma stepped_count_at:
  "stepped look_up s s' \<Longrightarrow> count_at s j = Some c \<Longrightarrow> count_at s' j = Some c"
  by (simp add: stepped_def keeps_counts_def count_at_def)

lemma stepped_zero_at: "stepped look_up s s' \<Longrightarrow> zero_at s j \<Longrightarrow> zero_at s' j"
  by (auto simp: zero_at_def split: option.splits dest: stepped_count_at)

lemma stepped_positive_at: "stepped look_up s s' \<Longrightarrow> positive_at s j \<Longrightarrow> positive_at s' j"
  by (auto simp: positive_at_def split: option.splits dest: stepped_count_at)

lemma count_at_cong:
  "headwords s' = headwords s \<Longrightarrow>
   headword_entry_count (data s') = headword_entry_count (data s) \<Longrightarrow>
   count_at s' j = count_at s j"
  by (simp add: count_at_def get_count_def)

lemma zero_at_cong:
  "headwords s' = headwords s \<Longrightarrow>
   headword_entry_count (data s') = headword_entry_count (data s) \<Longrightarrow>
   zero_at s' j = zero_at s j"
  by (simp add: zero_at_def count_at_cong [of s' s])

lemma positive_at_cong:
  "headwords s' = headwords s \<Longrightarrow>
   headword_entry_count (data s') = headword_entry_count (data s) \<Longrightarrow>
   positive_at s' j = positive_at s j"
  by (simp add: positive_at_def count_at_cong [of s' s])

text \<open>The end of \<^verbatim>\<open>commit_entry\<close>: the move to the next headword, the report, the write.\<close>

lemma advance_or_end:
  assumes "cache_ok look_up x" and "counts_ok look_up (headword_entry_count (data x))"
    and "0 \<le> headword_index (data x)"
    and "headword_index (data x) < int (length (headwords x))"
    and "s' = save_history (case go_to_next_headword look_up x of
        (True, y) \<Rightarrow> y | (False, y) \<Rightarrow> log INFO ReachedEnd y)"
  shows "stepped look_up x s' \<and>
    (headword_index (data x) < headword_index (data s') \<and>
       headword_index (data s') < int (length (headwords x)) \<and>
       entry_index (data s') = 0 \<and> positive_at s' (headword_index (data s')) \<and>
       (\<forall>j. headword_index (data x) < j \<and> j < headword_index (data s') \<longrightarrow> zero_at s' j) \<and>
       Log INFO ReachedEnd \<notin> set (appended x s')
     \<or> headword_index (data x) = int (length (headwords x)) - 1 \<and> cursor s' = cursor x \<and>
       headword_entry_count (data s') = headword_entry_count (data x) \<and>
       Log INFO ReachedEnd \<in> set (appended x s')
     \<or> headword_index (data x) + 1 < int (length (headwords x)) \<and>
       cursor s' = (int (length (headwords x)) - 1, 0) \<and>
       (\<forall>j. headword_index (data x) < j \<and> j < int (length (headwords x)) \<longrightarrow> zero_at s' j) \<and>
       Log INFO ReachedEnd \<in> set (appended x s'))"
proof -
  define h where "h = headword_index (data x)"
  define n where "n = int (length (headwords x))"
  from advance_forward_spec [OF assms(1-4)]
  obtain b y where a: "advance_headword look_up 1 x = Some (b, y)"
    and sc: "scanned look_up x y"
    and btw: "\<forall>j. h < j \<and> j < headword_index (data y) \<longrightarrow> zero_at y j"
    and rt: "b \<longrightarrow> h < headword_index (data y) \<and> headword_index (data y) < n \<and>
            entry_index (data y) = 0 \<and> positive_at y (headword_index (data y))"
    and rf: "\<not> b \<longrightarrow> (\<forall>j. h < j \<and> j < n \<longrightarrow> zero_at y j) \<and>
          cursor y = (if h + 1 < n then (n - 1, 0) else cursor x)"
    unfolding h_def [symmetric] n_def [symmetric] by blast
  from a have g: "go_to_next_headword look_up x = (b, y)"
    by (simp add: go_to_next_headword_eq)
  note q = advance_headword_quiet [OF a]
  note st = scanned_stepped [OF sc]
  then have hw: "headwords y = headwords x"
    by (simp add: stepped_def)
  show ?thesis
    unfolding h_def [symmetric] n_def [symmetric]
  proof (cases b)
    case True
    with g assms(5) have s': "s' = save_history y"
      by simp
    have same: "zero_at s' j = zero_at y j" "positive_at s' j = positive_at y j" for j
      by (rule zero_at_cong positive_at_cong; simp add: s')+
    have d: "data s' = data y"
      by (simp add: s')
    have nr: "Log INFO ReachedEnd \<notin> set (appended x s')"
      unfolding s' by (rule quiet_save_history(1) [OF q])
    have stp: "stepped look_up x s'"
      unfolding s' by (rule stepped_save_history [OF st])
    from True rt have "h < headword_index (data s') \<and> headword_index (data s') < n \<and>
       entry_index (data s') = 0 \<and> positive_at s' (headword_index (data s'))"
      by (simp add: same d)
    moreover from btw have "\<forall>j. h < j \<and> j < headword_index (data s') \<longrightarrow> zero_at s' j"
      by (simp add: same d)
    ultimately show "stepped look_up x s' \<and>
      (h < headword_index (data s') \<and> headword_index (data s') < n \<and>
       entry_index (data s') = 0 \<and> positive_at s' (headword_index (data s')) \<and>
       (\<forall>j. h < j \<and> j < headword_index (data s') \<longrightarrow> zero_at s' j) \<and>
       Log INFO ReachedEnd \<notin> set (appended x s')
     \<or> h = n - 1 \<and> cursor s' = cursor x \<and>
       headword_entry_count (data s') = headword_entry_count (data x) \<and>
       Log INFO ReachedEnd \<in> set (appended x s')
     \<or> h + 1 < n \<and> cursor s' = (n - 1, 0) \<and>
       (\<forall>j. h < j \<and> j < n \<longrightarrow> zero_at s' j) \<and>
       Log INFO ReachedEnd \<in> set (appended x s'))"
      using nr stp by simp
  next
    case False
    with g assms(5) have s': "s' = save_history (log INFO ReachedEnd y)"
      by simp
    have same: "zero_at s' j = zero_at y j" for j
      by (rule zero_at_cong; simp add: s')
    from q have rep: "Log INFO ReachedEnd \<in> set (appended x s')"
      by (auto simp: s' quiet_def appended_def save_history_def log_def)
    have stp: "stepped look_up x s'"
      unfolding s' by (intro stepped_save_history stepped_log st)
    have cur: "cursor s' = cursor y"
      by (simp add: s')
    show "stepped look_up x s' \<and>
      (h < headword_index (data s') \<and> headword_index (data s') < n \<and>
       entry_index (data s') = 0 \<and> positive_at s' (headword_index (data s')) \<and>
       (\<forall>j. h < j \<and> j < headword_index (data s') \<longrightarrow> zero_at s' j) \<and>
       Log INFO ReachedEnd \<notin> set (appended x s')
     \<or> h = n - 1 \<and> cursor s' = cursor x \<and>
       headword_entry_count (data s') = headword_entry_count (data x) \<and>
       Log INFO ReachedEnd \<in> set (appended x s')
     \<or> h + 1 < n \<and> cursor s' = (n - 1, 0) \<and>
       (\<forall>j. h < j \<and> j < n \<longrightarrow> zero_at s' j) \<and>
       Log INFO ReachedEnd \<in> set (appended x s'))"
    proof (cases "h + 1 < n")
      case True
      with False rf cur rep stp show ?thesis
        by (simp add: same)
    next
      case nomove: False
      with assms(4) have hn: "h = n - 1"
        by (simp add: h_def n_def)
      from nomove assms(3,4) have "advance_headword look_up 1 x = Some (False, x)"
        by (subst advance_headword.simps) (simp add: h_def n_def)
      with a have "y = x" by simp
      with hn cur rep stp show ?thesis
        by (simp add: s')
    qed
  qed
qed

definition data_inv :: "lookup \<Rightarrow> State \<Rightarrow> bool" where
  "data_inv look_up s \<longleftrightarrow>
     0 \<le> headword_index (data s) \<and> headword_index (data s) < int (length (headwords s)) \<and>
     0 \<le> entry_index (data s) \<and>
     counts_ok look_up (headword_entry_count (data s)) \<and>
     (0 < headword_index (data s) \<or> 0 < entry_index (data s) \<longrightarrow>
        (\<exists>c. count_at s (headword_index (data s)) = Some c \<and>
           (entry_index (data s) < c \<or>
            headword_index (data s) = int (length (headwords s)) - 1))) \<and>
     (0 < entry_index (data s) \<longrightarrow>
        term_of look_up (headwords s ! nat (headword_index (data s))) \<noteq> None) \<and>
     (0 < headword_index (data s) \<and> term_of look_up (headwords s ! 0) = None \<longrightarrow>
        (\<exists>q. 0 < q \<and> q \<le> headword_index (data s) \<and> positive_at s q))"

definition extends :: "State \<Rightarrow> State \<Rightarrow> bool" where
  "extends s s' \<longleftrightarrow> (\<exists>xs. trace s' = trace s @ xs)"

lemma quiet_extends: "quiet s s' \<Longrightarrow> extends s s'"
  by (auto simp: quiet_def extends_def)

lemma extends_save_history: "extends s s' \<Longrightarrow> extends s (save_history s')"
  by (auto simp: extends_def save_history_def log_def)

lemma extends_log: "extends s s' \<Longrightarrow> extends s (log l m s')"
  by (auto simp: extends_def log_def)

lemma appended_mem:
  assumes "quiet s x" and "extends x s'" and "\<not> scan_event ev"
  shows "ev \<in> set (appended s s') \<longleftrightarrow> ev \<in> set (appended x s')"
proof -
  from assms(1) obtain xs where xs: "trace x = trace s @ xs" "list_all scan_event xs"
    by (auto simp: quiet_def)
  from assms(2) obtain ys where ys: "trace s' = trace x @ ys"
    by (auto simp: extends_def)
  from xs(2) assms(3) have "ev \<notin> set xs"
    by (auto simp: list_all_iff)
  with xs(1) ys show ?thesis
    by (simp add: appended_def)
qed

lemma advance_or_end_extends:
  assumes "s' = save_history (case go_to_next_headword look_up x of
        (True, y) \<Rightarrow> y | (False, y) \<Rightarrow> log INFO ReachedEnd y)"
  shows "extends x s'"
proof -
  obtain b y where g: "go_to_next_headword look_up x = (b, y)"
    by (cases "go_to_next_headword look_up x") auto
  from go_to_next_headword_quiet [OF g] have "extends x y"
    by (rule quiet_extends)
  with g assms show ?thesis
    by (cases b) (simp_all add: extends_save_history extends_log)
qed

lemma counts_ok_zero:
  "counts_ok look_up cs \<Longrightarrow> counts_ok look_up (AList.update w 0 cs)"
  by (auto simp: counts_ok_def update_conv' split: if_splits)


lemma wf_lookup_headword:
  "wf_lookup look_up \<Longrightarrow> term_of look_up w = Some t \<Longrightarrow> headword t = w"
  by (simp add: wf_lookup_def)

lemma positive_at_count:
  "positive_at s j \<Longrightarrow> \<exists>c. count_at s j = Some c \<and> 0 < c"
  by (auto simp: positive_at_def split: option.splits)

lemma commit_entry_cases:
  assumes wf: "wf_lookup look_up" and c: "cache_ok look_up s" and i: "data_inv look_up s"
    and r: "commit_entry look_up s = Inr s'"
  defines "h \<equiv> headword_index (data s)" and "e \<equiv> entry_index (data s)"
    and "n \<equiv> int (length (headwords s))"
  shows "stepped look_up s s' \<and>
    (cursor s' = (h, e + 1) \<and> (\<exists>c. count_at s' h = Some c \<and> e + 1 < c) \<and>
       term_of look_up (headwords s ! nat h) \<noteq> None \<and>
       Log INFO ReachedEnd \<notin> set (appended s s')
     \<or> h < headword_index (data s') \<and> headword_index (data s') < n \<and>
       entry_index (data s') = 0 \<and> positive_at s' (headword_index (data s')) \<and>
       (\<forall>j. h < j \<and> j < headword_index (data s') \<longrightarrow> zero_at s' j) \<and>
       Log INFO ReachedEnd \<notin> set (appended s s')
     \<or> h = n - 1 \<and> cursor s' = (h, e + 1) \<and> (\<exists>c. count_at s' h = Some c \<and> c \<le> e + 1) \<and>
       term_of look_up (headwords s ! nat h) \<noteq> None \<and>
       Log INFO ReachedEnd \<in> set (appended s s')
     \<or> h + 1 < n \<and> cursor s' = (n - 1, 0) \<and>
       (\<forall>j. h < j \<and> j < n \<longrightarrow> zero_at s' j) \<and>
       term_of look_up (headwords s ! nat h) \<noteq> None \<and>
       Log INFO ReachedEnd \<in> set (appended s s'))"
proof -
  define s0 where "s0 = s\<lparr>data := (data s)\<lparr>entry_index := e + 1\<rparr>\<rparr>"
  from i have rng: "0 \<le> h" "h < n" "0 \<le> e"
    and ok: "counts_ok look_up (headword_entry_count (data s))"
    by (simp_all add: data_inv_def h_def e_def n_def)
  have c0: "cache_ok look_up s0" using c by (simp add: cache_ok_def s0_def)
  have ok0: "counts_ok look_up (headword_entry_count (data s0))" using ok by (simp add: s0_def)
  have h0: "headword_index (data s0) = h" and e0: "entry_index (data s0) = e + 1"
    and hw0: "headwords s0 = headwords s" and tr0: "trace s0 = trace s"
    and wr0: "history_writable s0 = history_writable s"
    and cn0: "headword_entry_count (data s0) = headword_entry_count (data s)"
    by (simp_all add: s0_def h_def)
  have st0: "stepped look_up s s0"
    using c0 ok0 hw0 wr0 cn0 by (simp add: stepped_def keeps_counts_def get_count_def)
  have q0: "quiet s s0" using tr0 by (rule quiet_trace)
  have r0: "0 \<le> headword_index (data s0)" "headword_index (data s0) < int (length (headwords s0))"
    using rng by (simp_all add: h0 hw0 n_def)
  show ?thesis
  proof (cases "term_of look_up (headwords s ! nat h)")
    case None
    then have "term_of look_up (headwords s0 ! nat (headword_index (data s0))) = None"
      by (simp add: h0 hw0)
    from current_term_skip [OF c0 ok0 r0 this] r
    obtain t s1 where ct: "current_term look_up s0 = Inr (t, s1)"
      and sc: "scanned look_up s0 s1"
      and r1: "h < headword_index (data s1)" "headword_index (data s1) < n"
      and e1: "entry_index (data s1) = 0"
      and p1: "positive_at s1 (headword_index (data s1))"
      and btw: "\<forall>j. h < j \<and> j < headword_index (data s1) \<longrightarrow> zero_at s1 j"
      and t: "term_of look_up (headwords s ! nat (headword_index (data s1))) = Some t"
      unfolding h0 hw0 n_def [symmetric]
      by (auto simp: commit_entry_def s0_def e_def)
    from sc have hw1: "headwords s1 = headwords s"
      by (simp add: scanned_def hw0)
    from wf_lookup_headword [OF wf t]
    have ht: "headword t = headwords s ! nat (headword_index (data s1))" .
    from positive_at_count [OF p1] obtain c1
      where c1: "count_at s1 (headword_index (data s1)) = Some c1" "0 < c1"
      by blast
    then have g1: "get_count s1 (headword t) = Some c1"
      by (simp add: count_at_def ht hw1)
    from r ct g1 c1(2) e1 have s': "s' = save_history s1"
      by (simp add: commit_entry_def s0_def [symmetric] e_def [symmetric] Let_def)
    have st: "stepped look_up s s'"
      unfolding s' using st0 scanned_stepped [OF sc]
      by (blast intro: stepped_trans stepped_save_history)
    have q: "quiet s s1"
      using q0 current_term_quiet [OF ct] by (rule quiet_trans)
    have nr: "Log INFO ReachedEnd \<notin> set (appended s s')"
      unfolding s' by (rule quiet_save_history(1) [OF q])
    have d: "data s' = data s1"
      by (simp add: s')
    have same: "zero_at s' j = zero_at s1 j" "positive_at s' j = positive_at s1 j" for j
      by (rule zero_at_cong positive_at_cong; simp add: s')+
    have "h < headword_index (data s') \<and> headword_index (data s') < n \<and>
       entry_index (data s') = 0 \<and> positive_at s' (headword_index (data s')) \<and>
       (\<forall>j. h < j \<and> j < headword_index (data s') \<longrightarrow> zero_at s' j) \<and>
       Log INFO ReachedEnd \<notin> set (appended s s')"
      using r1 e1 p1 btw nr by (simp add: same d)
    with st show ?thesis
      by blast
  next
    case (Some t)
    then have "term_of look_up (headwords s0 ! nat (headword_index (data s0))) = Some t"
      by (simp add: h0 hw0)
    from current_term_found [OF c0 r0 this]
    obtain s1 where ct: "current_term look_up s0 = Inr (t, s1)"
      and d1: "data s1 = data s0" and hw1: "headwords s1 = headwords s0"
      and c1: "cache_ok look_up s1"
      and wr1: "history_writable s1 = history_writable s0"
      by blast
    from wf_lookup_headword [OF wf Some] have ht: "headword t = headwords s ! nat h" .
    have q1: "quiet s s1"
      using q0 current_term_quiet [OF ct] by (rule quiet_trans)
    have st1: "stepped look_up s s1"
      using c1 ok d1 hw1 wr1 hw0 wr0 cn0
      by (simp add: stepped_def keeps_counts_def get_count_def)
    have tm: "term_of look_up (headwords s ! nat h) \<noteq> None"
      using Some by simp
    have cur1: "cursor s1 = (h, e + 1)"
      by (simp add: cursor_def d1 h0 e0)
    show ?thesis
    proof (cases "case get_count s1 (headword t) of None \<Rightarrow> False | Some c0 \<Rightarrow> e + 1 < c0")
      case True
      then obtain c0 where g: "get_count s1 (headword t) = Some c0" and lt: "e + 1 < c0"
        by (auto split: option.splits)
      from r ct g lt have s': "s' = save_history s1"
        by (simp add: commit_entry_def s0_def [symmetric] e_def [symmetric] Let_def d1 e0)
      have "stepped look_up s s'"
        unfolding s' by (rule stepped_save_history [OF st1])
      moreover have "cursor s' = (h, e + 1)"
        by (simp add: s' cur1)
      moreover have "count_at s' h = Some c0"
        using g by (simp add: s' count_at_def ht hw1 hw0 get_count_def)
      moreover have "Log INFO ReachedEnd \<notin> set (appended s s')"
        unfolding s' by (rule quiet_save_history(1) [OF q1])
      ultimately show ?thesis
        using lt tm by blast
    next
      case False
      define x where "x = (case get_count s1 (headword t) of
          None \<Rightarrow> set_count (headword t) 0 (log ERROR (NoEntryCount (headword t)) s1)
        | Some c0 \<Rightarrow> s1)"
      from False rng(3) r ct have s': "s' = save_history (case go_to_next_headword look_up x of
          (True, y) \<Rightarrow> y | (False, y) \<Rightarrow> log INFO ReachedEnd y)"
        by (auto simp: commit_entry_def s0_def [symmetric] e_def [symmetric] Let_def d1 e0 x_def
            split: option.splits)
      have cx: "cache_ok look_up x"
        using c1 by (auto simp: x_def cache_ok_def split: option.splits)
      have okx: "counts_ok look_up (headword_entry_count (data x))"
        using ok by (auto simp: x_def d1 cn0 set_count_def counts_ok_zero split: option.splits)
      have curx: "cursor x = (h, e + 1)"
        using cur1 by (auto simp: x_def split: option.splits)
      have hwx: "headwords x = headwords s"
        by (auto simp: x_def hw1 hw0 split: option.splits)
      have wrx: "history_writable x = history_writable s"
        by (auto simp: x_def wr1 wr0 split: option.splits)
      have kx: "keeps_counts s x"
      proof (cases "get_count s1 (headword t)")
        case None
        then have "get_count (log ERROR (NoEntryCount (headword t)) s1) (headword t) = None"
          by (simp add: get_count_def)
        from keeps_counts_set_count [OF this, of 0] None show ?thesis
          by (simp add: x_def keeps_counts_def get_count_def d1 cn0)
      next
        case (Some c0)
        then show ?thesis
          by (simp add: x_def keeps_counts_def get_count_def d1 cn0)
      qed
      have stx: "stepped look_up s x"
        using cx okx hwx wrx kx by (simp add: stepped_def)
      have qx: "quiet s x"
      proof (cases "get_count s1 (headword t)")
        case None
        have "quiet s (log ERROR (NoEntryCount (headword t)) s1)"
          using q1 by (intro quiet_log) simp_all
        then show ?thesis
          by (simp add: x_def None quiet_def)
      next
        case (Some c0)
        with q1 show ?thesis by (simp add: x_def)
      qed
      have cax: "\<exists>c0. count_at x h = Some c0 \<and> c0 \<le> e + 1"
      proof (cases "get_count s1 (headword t)")
        case None
        with rng(3) show ?thesis
          by (simp add: x_def count_at_def ht hw1 hw0 get_count_def set_count_def update_conv')
      next
        case (Some c0)
        with False show ?thesis
          by (simp add: x_def count_at_def ht hw1 hw0)
      qed
      have rx: "0 \<le> headword_index (data x)" "headword_index (data x) < int (length (headwords x))"
        using curx rng by (simp_all add: cursor_def hwx n_def)
      note ae = advance_or_end [OF cx okx rx s']
      note ex = advance_or_end_extends [OF s']
      have hx: "headword_index (data x) = h" using curx by (simp add: cursor_def)
      have nx: "int (length (headwords x)) = n" by (simp add: hwx n_def)
      from ae have st': "stepped look_up x s'" by simp
      have st: "stepped look_up s s'"
        using stx st' by (rule stepped_trans)
      have mem: "Log INFO ReachedEnd \<in> set (appended s s') \<longleftrightarrow>
          Log INFO ReachedEnd \<in> set (appended x s')"
        using qx ex by (rule appended_mem) simp
      from ae have "h < headword_index (data s') \<and> headword_index (data s') < n \<and>
         entry_index (data s') = 0 \<and> positive_at s' (headword_index (data s')) \<and>
         (\<forall>j. h < j \<and> j < headword_index (data s') \<longrightarrow> zero_at s' j) \<and>
         Log INFO ReachedEnd \<notin> set (appended s s')
       \<or> h = n - 1 \<and> cursor s' = (h, e + 1) \<and>
         headword_entry_count (data s') = headword_entry_count (data x) \<and>
         Log INFO ReachedEnd \<in> set (appended s s')
       \<or> h + 1 < n \<and> cursor s' = (n - 1, 0) \<and>
         (\<forall>j. h < j \<and> j < n \<longrightarrow> zero_at s' j) \<and>
         Log INFO ReachedEnd \<in> set (appended s s')"
        unfolding hx nx mem curx by simp
      moreover have "\<exists>c. count_at s' h = Some c \<and> c \<le> e + 1"
        if "headword_entry_count (data s') = headword_entry_count (data x)"
      proof -
        from st have "headwords s' = headwords s" by (simp add: stepped_def)
        with that hwx have "count_at s' h = count_at x h"
          by (intro count_at_cong) simp_all
        with cax show ?thesis by simp
      qed
      ultimately show ?thesis
        using st tm by blast
    qed
  qed
qed

lemma undo_cases:
  assumes wf: "wf_lookup look_up" and c: "cache_ok look_up s" and i: "data_inv look_up s"
  defines "h \<equiv> headword_index (data s)" and "e \<equiv> entry_index (data s)"
  shows "\<exists>s'. undo look_up s = Inr s' \<and> stepped look_up s s' \<and>
    (0 < e \<and> cursor s' = (h, e - 1) \<and>
       headword_entry_count (data s') = headword_entry_count (data s) \<and>
       Log INFO AlreadyAtFirstEntry \<notin> set (appended s s')
     \<or> e = 0 \<and> 0 \<le> headword_index (data s') \<and> headword_index (data s') < h \<and>
       (\<exists>c. count_at s' (headword_index (data s')) = Some c \<and> 0 < c \<and>
          entry_index (data s') = c - 1) \<and>
       (\<forall>j. headword_index (data s') < j \<and> j < h \<longrightarrow> zero_at s' j) \<and>
       Log INFO AlreadyAtFirstEntry \<notin> set (appended s s')
     \<or> e = 0 \<and> cursor s' = (0, 0) \<and> (\<forall>j. 0 \<le> j \<and> j < h \<longrightarrow> zero_at s' j) \<and>
       curator_history s' = curator_history s \<and>
       (\<exists>s1. quiet s s1 \<and> s' = log INFO AlreadyAtFirstEntry s1))"
proof -
  from i have rng: "0 \<le> h" "h < int (length (headwords s))" "0 \<le> e"
    and ok: "counts_ok look_up (headword_entry_count (data s))"
    by (simp_all add: data_inv_def h_def e_def)
  have st_refl: "stepped look_up s s"
    using c ok by (simp add: stepped_def)
  show ?thesis
  proof (cases "0 < e")
    case True
    define s' where "s' = save_history (s\<lparr>data := (data s)\<lparr>entry_index := e - 1\<rparr>\<rparr>)"
    from True have u: "undo look_up s = Inr s'"
      by (simp add: undo_def s'_def e_def)
    have "stepped look_up s s'"
      using c ok by (simp add: s'_def stepped_def cache_ok_def keeps_counts_def get_count_def)
    moreover have "cursor s' = (h, e - 1)"
      by (simp add: s'_def cursor_def h_def)
    moreover have "headword_entry_count (data s') = headword_entry_count (data s)"
      by (simp add: s'_def)
    moreover have "Log INFO AlreadyAtFirstEntry \<notin> set (appended s s')"
      unfolding s'_def by (rule quiet_save_history(2)) (simp add: quiet_def)
    ultimately show ?thesis
      using u True by blast
  next
    case False
    with rng have e0: "e = 0" by simp
    show ?thesis
    proof (cases "0 < h")
      case h: False
      with rng have h0: "h = 0" by simp
      from e0 h0 have u: "undo look_up s = Inr (log INFO AlreadyAtFirstEntry s)"
        by (simp add: undo_def e_def h_def)
      have "stepped look_up s (log INFO AlreadyAtFirstEntry s)"
        by (rule stepped_log [OF st_refl])
      moreover have "cursor (log INFO AlreadyAtFirstEntry s) = (0, 0)"
        using e0 h0 by (simp add: cursor_def e_def h_def)
      moreover have "\<exists>s1. quiet s s1 \<and> log INFO AlreadyAtFirstEntry s = log INFO AlreadyAtFirstEntry s1"
        by (intro exI [of _ s]) simp
      ultimately show ?thesis
        using u e0 h0 by auto
    next
      case h: True
      from advance_backward_spec [OF c ok rng(1,2) [unfolded h_def]]
      obtain b s1 where a: "advance_headword look_up (- 1) s = Some (b, s1)"
        and sc: "scanned look_up s s1"
        and btw: "\<forall>j. headword_index (data s1) < j \<and> j < h \<longrightarrow> zero_at s1 j"
        and rt: "b \<longrightarrow> 0 \<le> headword_index (data s1) \<and> headword_index (data s1) < h \<and>
            entry_index (data s1) = 0 \<and> positive_at s1 (headword_index (data s1))"
        and rf: "\<not> b \<longrightarrow> (\<forall>j. 0 \<le> j \<and> j < h \<longrightarrow> zero_at s1 j) \<and>
            cursor s1 = (if 0 < h then (0, 0) else cursor s)"
        unfolding h_def [symmetric] by blast
      from a have g: "go_to_previous_headword look_up s = (b, s1)"
        by (simp add: go_to_previous_headword_eq)
      note q1 = advance_headword_quiet [OF a]
      note st1 = scanned_stepped [OF sc]
      from sc have hw1: "headwords s1 = headwords s" and c1: "cache_ok look_up s1"
        and ok1: "counts_ok look_up (headword_entry_count (data s1))"
        and f1: "curator_history s1 = curator_history s"
        by (simp_all add: scanned_def)
      show ?thesis
      proof (cases b)
        case False
        define s' where "s' = log INFO AlreadyAtFirstEntry s1"
        from False e0 h g have u: "undo look_up s = Inr s'"
          by (simp add: undo_def e_def h_def s'_def)
        have "stepped look_up s s'"
          unfolding s'_def by (rule stepped_log [OF st1])
        moreover have "cursor s' = (0, 0)"
          using False rf h by (simp add: s'_def)
        moreover have "\<forall>j. 0 \<le> j \<and> j < h \<longrightarrow> zero_at s' j"
        proof -
          have "zero_at s' j = zero_at s1 j" for j
            by (rule zero_at_cong; simp add: s'_def)
          with False rf show ?thesis by simp
        qed
        moreover have "curator_history s' = curator_history s"
          by (simp add: s'_def f1)
        moreover have "\<exists>s1. quiet s s1 \<and> s' = log INFO AlreadyAtFirstEntry s1"
          using q1 s'_def by blast
        ultimately show ?thesis
          using u e0 by blast
      next
        case True
        with rt have p: "positive_at s1 (headword_index (data s1))"
          and r1: "0 \<le> headword_index (data s1)" "headword_index (data s1) < h"
          and e1: "entry_index (data s1) = 0"
          by simp_all
        from positive_at_term [OF ok1 p] obtain t c1'
          where t: "term_of look_up (headwords s1 ! nat (headword_index (data s1))) = Some t"
            and cnt: "count_at s1 (headword_index (data s1)) = Some c1'" "0 < c1'"
          by blast
        have r1': "headword_index (data s1) < int (length (headwords s1))"
          using r1 rng(2) by (simp add: hw1)
        from current_term_found [OF c1 r1(1) r1' t]
        obtain s2 where ct: "current_term look_up s1 = Inr (t, s2)"
          and d2: "data s2 = data s1" and hw2: "headwords s2 = headwords s1"
          and c2: "cache_ok look_up s2"
          and wr2: "history_writable s2 = history_writable s1"
          by blast
        from wf_lookup_headword [OF wf t]
        have ht: "headword t = headwords s1 ! nat (headword_index (data s1))" .
        from cnt have g2: "get_count s2 (headword t) = Some c1'"
          by (simp add: count_at_def ht get_count_def d2)
        define s' where
          "s' = save_history (s2\<lparr>data := (data s2)\<lparr>entry_index := c1' - 1\<rparr>\<rparr>)"
        from True e0 h g ct g2 cnt(2) have u: "undo look_up s = Inr s'"
          by (simp add: undo_def e_def h_def s'_def Let_def)
        have st2: "stepped look_up s1 s2"
          using c2 ok1 d2 hw2 wr2 by (simp add: stepped_def keeps_counts_def get_count_def)
        have "stepped look_up s2 s'"
          using c2 ok1 d2
          by (simp add: s'_def stepped_def cache_ok_def keeps_counts_def get_count_def)
        with st1 st2 have "stepped look_up s s'"
          by (blast intro: stepped_trans)
        moreover have hd: "headword_index (data s') = headword_index (data s1)"
          and "entry_index (data s') = c1' - 1"
          by (simp_all add: s'_def d2)
        moreover have cong: "count_at s' j = count_at s1 j" for j
          by (rule count_at_cong; simp add: s'_def d2 hw2)
        moreover have "\<forall>j. headword_index (data s') < j \<and> j < h \<longrightarrow> zero_at s' j"
          using btw by (simp add: hd zero_at_def cong)
        moreover have "Log INFO AlreadyAtFirstEntry \<notin> set (appended s s')"
        proof -
          have "quiet s s2"
            using q1 current_term_quiet [OF ct] by (rule quiet_trans)
          then have "quiet s (s2\<lparr>data := (data s2)\<lparr>entry_index := c1' - 1\<rparr>\<rparr>)"
            by (simp add: quiet_def)
          then show ?thesis
            unfolding s'_def by (rule quiet_save_history(2))
        qed
        ultimately show ?thesis
          using u e0 r1 cnt by (intro exI [of _ s']) simp
      qed
    qed
  qed
qed

end
